theory Spec2Isabelle
  imports Main "HOL-Library.AList" "HOL-Library.Sublist" "HOL-Library.Multiset"
    "HOL-Library.List_Lexorder" "HOL-Library.Char_ord"
begin

section \<open>The character trie of \<^verbatim>\<open>examples/trie_utils.py\<close>\<close>

text \<open>
  A trie node of the source is a Python dictionary whose keys are single characters
  (mapped to child dictionaries) plus, possibly, the reserved key \<^verbatim>\<open>""\<close> (mapped to
  \<^verbatim>\<open>1\<close>) that marks the end of a word. The value \<^verbatim>\<open>1\<close> is never read: only the
  presence of the key is tested (\<^verbatim>\<open>"" in node\<close>). A node is therefore a flag
  \<open>terminal\<close> (the key \<^verbatim>\<open>""\<close> is present) and the association list \<open>children\<close> of
  the character keys in insertion order, which is the order a Python dictionary
  iterates in. Characters are any type \<open>'c\<close>; a string is a \<open>'c list\<close>.
\<close>

datatype 'c node = Node (terminal: bool) (children: "('c \<times> 'c node) list")

text \<open>
  The class \<^verbatim>\<open>Trie\<close>: \<^verbatim>\<open>self.data\<close> is the root dictionary and \<^verbatim>\<open>self._tokens\<close> the set
  of the words added.
\<close>

record 'c Trie =
  data :: "'c node"
  tokens :: "'c list set"

text \<open>The exceptions a run of the modelled methods could raise.\<close>

datatype error = NameError | IndexError | UnboundLocalError | KeyError

subsection \<open>Construction and \<^verbatim>\<open>add\<close>\<close>

text \<open>
  The loop of \<^verbatim>\<open>add\<close> and the final \<^verbatim>\<open>ref[""] = 1\<close>, from the dictionary \<^verbatim>\<open>ref\<close>:
  \<^verbatim>\<open>ref.setdefault(char, {})\<close> gives the child already there or a new empty
  dictionary stored under \<^verbatim>\<open>char\<close>; \<open>AList.update\<close> replaces the value of a key
  that is present at its place and appends a key that is absent, as a dictionary
  assignment does.
\<close>

fun add_chars :: "'c list \<Rightarrow> 'c node \<Rightarrow> 'c node" where
  "add_chars [] (Node t cs) = Node True cs"
| "add_chars (c # w) (Node t cs) =
     Node t (AList.update c
       (add_chars w (case map_of cs c of None \<Rightarrow> Node False [] | Some n \<Rightarrow> n)) cs)"

definition add :: "'c list \<Rightarrow> 'c Trie \<Rightarrow> 'c Trie" where
  "add word T =
     (if word = [] then T
      else \<lparr>data = add_chars word (data T), tokens = insert word (tokens T)\<rparr>)"

text \<open>\<^verbatim>\<open>update\<close> adds every word of its argument, in order.\<close>

definition update :: "'c list list \<Rightarrow> 'c Trie \<Rightarrow> 'c Trie" where
  "update ws T = fold add ws T"

text \<open>
  \<^verbatim>\<open>Trie(words)\<close>: empty root, empty token set, then \<^verbatim>\<open>update\<close>. \<^verbatim>\<open>Trie()\<close> is
  \<open>Trie_init []\<close>.
\<close>

definition Trie_init :: "'c list list \<Rightarrow> 'c Trie" where
  "Trie_init ws = update ws \<lparr>data = Node False [], tokens = {}\<rparr>"

text \<open>The tries that construction followed by any number of \<^verbatim>\<open>add\<close> calls can produce.\<close>

inductive reachable :: "'c Trie \<Rightarrow> bool" where
  init: "reachable (Trie_init ws)"
| add: "reachable T \<Longrightarrow> reachable (add w T)"

subsection \<open>\<^verbatim>\<open>cut_text\<close>\<close>

text \<open>
  The loop of \<^verbatim>\<open>cut_text\<close> over the offsets, with the cursor \<^verbatim>\<open>start\<close> and the
  fragments collected so far. The branch \<^verbatim>\<open>start > end\<close> calls \<^verbatim>\<open>logger.error\<close>, and
  the module neither defines nor imports a name \<^verbatim>\<open>logger\<close>: evaluating it raises
  \<^verbatim>\<open>NameError\<close> before the \<^verbatim>\<open>continue\<close> is reached. The slice \<^verbatim>\<open>text[start:end]\<close> is
  taken with \<^verbatim>\<open>start < end\<close> only and is cut off at the end of the text.
\<close>

fun cut_loop :: "'c list \<Rightarrow> nat list \<Rightarrow> nat \<Rightarrow> 'c list list \<Rightarrow> error + 'c list list" where
  "cut_loop text [] start toks = Inr toks"
| "cut_loop text (e # es) start toks =
     (if start > e then Inl NameError
      else if start = e then cut_loop text es start toks
      else cut_loop text es e (toks @ [take (e - start) (drop start text)]))"

definition cut_text :: "'c list \<Rightarrow> nat list \<Rightarrow> error + 'c list list" where
  "cut_text text offsets = cut_loop text (offsets @ [length text]) 0 []"

subsection \<open>\<^verbatim>\<open>split\<close>\<close>

text \<open>
  The local variables of \<^verbatim>\<open>split\<close> that live across iterations of the main loop:
  the ordered dictionary \<^verbatim>\<open>states\<close> (start offset to trie node), the list \<^verbatim>\<open>offsets\<close>,
  \<^verbatim>\<open>skip\<close>, and \<^verbatim>\<open>end\<close>, which is unbound (\<open>None\<close>) until the first lookahead assigns it.
\<close>

record 'c scan =
  states :: "(nat \<times> 'c node) list"
  offsets :: "nat list"
  skip :: nat
  endv :: "nat option"

text \<open>
  The \<^verbatim>\<open>while next_char in looktrie_pointer\<close> loop of the lookahead. \<^verbatim>\<open>next_char\<close> is
  \<^verbatim>\<open>None\<close> or a character; the triple is (\<^verbatim>\<open>start\<close>, \<^verbatim>\<open>end\<close>, \<^verbatim>\<open>skip\<close>). Reading
  \<^verbatim>\<open>text[lookahead_index]\<close> beyond the end of the text raises \<^verbatim>\<open>IndexError\<close>.
\<close>

function lookahead_while ::
  "'c list \<Rightarrow> nat \<Rightarrow> 'c node \<Rightarrow> nat \<Rightarrow> 'c option \<Rightarrow> nat \<times> nat option \<times> nat
     \<Rightarrow> error + (nat \<times> nat option \<times> nat)" where
  "lookahead_while text lookstart ptr idx next_char acc =
     (case next_char of
        None \<Rightarrow> Inr acc
      | Some ch \<Rightarrow>
          (case map_of (children ptr) ch of
             None \<Rightarrow> Inr acc
           | Some ptr' \<Rightarrow>
               (if idx + 1 = length text
                then Inr (if terminal ptr' then (lookstart, Some (idx + 1), idx + 1) else acc)
                else if idx + 1 < length text
                then lookahead_while text lookstart ptr' (idx + 1) (Some (text ! (idx + 1)))
                       (if terminal ptr' then (lookstart, Some (idx + 1), idx + 1) else acc)
                else Inl IndexError)))"
  by pat_completeness auto
termination
  by (relation "measure (\<lambda>(text, lookstart, ptr, idx, next_char, acc). length text - idx)") auto

declare lookahead_while.simps [simp del]

text \<open>
  The \<^verbatim>\<open>for lookstart, looktrie_pointer in states.items()\<close> loop of the lookahead,
  over the items still to visit; \<^verbatim>\<open>current\<close> is the index of the main loop.
\<close>

fun lookahead ::
  "'c list \<Rightarrow> nat \<Rightarrow> (nat \<times> 'c node) list \<Rightarrow> nat \<times> nat option \<times> nat
     \<Rightarrow> error + (nat \<times> nat option \<times> nat)" where
  "lookahead text current [] acc = Inr acc"
| "lookahead text current ((lookstart, looktrie_pointer) # rest) (start, en, sk) =
     (if lookstart > start then Inr (start, en, sk)
      else
        (let lookahead_index = (if lookstart < start then current + 1 else current);
             next_char = (if lookahead_index < length text
                          then Some (text ! lookahead_index) else None)
         in case lookahead_while text lookstart looktrie_pointer lookahead_index next_char
                   (if terminal looktrie_pointer
                    then (lookstart, Some lookahead_index, lookahead_index)
                    else (start, Some lookahead_index, sk)) of
              Inl e \<Rightarrow> Inl e
            | Inr acc' \<Rightarrow> lookahead text current rest acc'))"

text \<open>
  The \<^verbatim>\<open>for start, trie_pointer in states.items()\<close> loop of the main loop's body, over
  the items still to visit. The loop assigns only to keys it has already visited, so the
  items it visits are those the dictionary had when the loop began; the lookahead reads
  the dictionary as it is then, with the pointers of the earlier starts advanced. The
  result is the variables, the set \<^verbatim>\<open>to_remove\<close> (a duplicate-free list) and \<^verbatim>\<open>reset\<close>.
  \<^verbatim>\<open>offsets.append(end)\<close> with \<^verbatim>\<open>end\<close> unbound raises \<^verbatim>\<open>UnboundLocalError\<close>.
\<close>

fun match_states ::
  "'c list \<Rightarrow> nat \<Rightarrow> 'c \<Rightarrow> (nat \<times> 'c node) list \<Rightarrow> 'c scan \<Rightarrow> nat list
     \<Rightarrow> error + ('c scan \<times> nat list \<times> bool)" where
  "match_states text current current_char [] s to_remove = Inr (s, to_remove, False)"
| "match_states text current current_char ((start, trie_pointer) # items) s to_remove =
     (if terminal trie_pointer then
        (case lookahead text current (states s) (start, endv s, skip s) of
           Inl e \<Rightarrow> Inl e
         | Inr (start', None, skip') \<Rightarrow> Inl UnboundLocalError
         | Inr (start', Some end', skip') \<Rightarrow>
             Inr (s\<lparr>offsets := offsets s @ [start', end'], skip := skip', endv := Some end'\<rparr>,
                  to_remove, True))
      else
        (case map_of (children trie_pointer) current_char of
           Some trie_pointer' \<Rightarrow>
             match_states text current current_char items
               (s\<lparr>states := AList.update start trie_pointer' (states s)\<rparr>) to_remove
         | None \<Rightarrow>
             match_states text current current_char items s (List.insert start to_remove)))"

text \<open>
  \<^verbatim>\<open>for start in to_remove: del states[start]\<close>; deleting an absent key raises
  \<^verbatim>\<open>KeyError\<close>. The order in which a Python set is iterated does not change the result.
\<close>

fun del_states :: "nat list \<Rightarrow> (nat \<times> 'p) list \<Rightarrow> error + (nat \<times> 'p) list" where
  "del_states [] sts = Inr sts"
| "del_states (k # ks) sts =
     (if map_of sts k = None then Inl KeyError else del_states ks (AList.delete k sts))"

text \<open>One iteration of the main loop, at index \<^verbatim>\<open>current\<close> with character \<^verbatim>\<open>current_char\<close>.\<close>

definition step :: "'c node \<Rightarrow> 'c list \<Rightarrow> nat \<Rightarrow> 'c \<Rightarrow> 'c scan \<Rightarrow> error + 'c scan" where
  "step root text current current_char s =
     (if skip s \<noteq> 0 \<and> current < skip s then Inr s
      else
        (case match_states text current current_char (states s) s [] of
           Inl e \<Rightarrow> Inl e
         | Inr (s1, to_remove, reset) \<Rightarrow>
             (case (if reset then Inr [] else del_states to_remove (states s1)) of
                Inl e \<Rightarrow> Inl e
              | Inr sts \<Rightarrow>
                  (case (if current \<ge> skip s1 then map_of (children root) current_char
                         else None) of
                     Some n \<Rightarrow> Inr (s1\<lparr>states := AList.update current n sts\<rparr>)
                   | None \<Rightarrow> Inr (s1\<lparr>states := sts\<rparr>)))))"

text \<open>The main loop \<^verbatim>\<open>for current, current_char in enumerate(text)\<close>, from index \<^verbatim>\<open>current\<close>.\<close>

fun scan_text :: "'c node \<Rightarrow> 'c list \<Rightarrow> nat \<Rightarrow> 'c list \<Rightarrow> 'c scan \<Rightarrow> error + 'c scan" where
  "scan_text root text current [] s = Inr s"
| "scan_text root text current (ch # rest) s =
     (case step root text current ch s of
        Inl e \<Rightarrow> Inl e
      | Inr s' \<Rightarrow> scan_text root text (current + 1) rest s')"

text \<open>The loop after the main loop: the first state at a terminal node cuts up to the end.\<close>

fun final_cut :: "nat \<Rightarrow> (nat \<times> 'c node) list \<Rightarrow> nat list \<Rightarrow> nat list" where
  "final_cut n [] offs = offs"
| "final_cut n ((start, trie_pointer) # rest) offs =
     (if terminal trie_pointer then offs @ [start, n] else final_cut n rest offs)"

definition split :: "'c Trie \<Rightarrow> 'c list \<Rightarrow> error + 'c list list" where
  "split T text =
     (case scan_text (data T) text 0 text \<lparr>states = [], offsets = [0], skip = 0, endv = None\<rparr> of
        Inl e \<Rightarrow> Inl e
      | Inr s \<Rightarrow> cut_text text (final_cut (length text) (states s) (offsets s)))"

subsection \<open>Walking the tree\<close>

text \<open>
  Walking the node tree from a node along the characters of a word: the node reached,
  or \<open>None\<close> when a character has no child. A word ends at a terminal node when the walk
  reaches a node that bears the termination marker.
\<close>

fun walk :: "'c node \<Rightarrow> 'c list \<Rightarrow> 'c node option" where
  "walk n [] = Some n"
| "walk n (c # w) = (case map_of (children n) c of None \<Rightarrow> None | Some m \<Rightarrow> walk m w)"

definition ends_terminal :: "'c node \<Rightarrow> 'c list \<Rightarrow> bool" where
  "ends_terminal n w = (case walk n w of None \<Rightarrow> False | Some m \<Rightarrow> terminal m)"

subsection \<open>\<^verbatim>\<open>ExtensionsTrie\<close>\<close>

text \<open>
  \<^verbatim>\<open>_get_node\<close>, from the node reached so far: the loop stops (\<^verbatim>\<open>break\<close>) at the first
  character that is not a key of the node and returns the node reached until then.
\<close>

fun get_node_from :: "'c node \<Rightarrow> 'c list \<Rightarrow> 'c node" where
  "get_node_from nd [] = nd"
| "get_node_from nd (ch # rest) =
     (case map_of (children nd) ch of None \<Rightarrow> nd | Some m \<Rightarrow> get_node_from m rest)"

definition get_node :: "'c Trie \<Rightarrow> 'c list \<Rightarrow> 'c node" where
  "get_node T token = get_node_from (data T) token"

text \<open>
  \<^verbatim>\<open>_collect_tokens\<close>: the empty suffix first when the node is terminal, then, for every
  character key in dictionary order, the suffixes of the child with the character in front.
\<close>

fun collect_tokens :: "'c node \<Rightarrow> 'c list list" where
  "collect_tokens (Node t cs) =
     (if t then [[]] else []) @
     concat (map (\<lambda>p. map ((#) (fst p)) (collect_tokens (snd p))) cs)"

definition extensions :: "'c Trie \<Rightarrow> 'c list \<Rightarrow> 'c list list" where
  "extensions T pfx = map ((@) pfx) (collect_tokens (get_node T pfx))"

subsection \<open>\<^verbatim>\<open>_insert_one_token_to_ordered_list\<close>\<close>

text \<open>
  \<^verbatim>\<open>bisect.bisect_left(a, x)\<close> of the Python standard library, which the source calls:
  the binary search \<^verbatim>\<open>lo, hi = 0, len(a); while lo < hi: mid = (lo + hi) // 2;
  if a[mid] < x: lo = mid + 1 else: hi = mid; return lo\<close>. Tokens are compared by a linear
  order, as Python compares strings.
\<close>

function bisect_loop :: "'a::linorder list \<Rightarrow> 'a \<Rightarrow> nat \<Rightarrow> nat \<Rightarrow> nat" where
  "bisect_loop a x lo hi =
     (if lo < hi
      then (if a ! ((lo + hi) div 2) < x
            then bisect_loop a x ((lo + hi) div 2 + 1) hi
            else bisect_loop a x lo ((lo + hi) div 2))
      else lo)"
  by pat_completeness auto
termination
  by (relation "measure (\<lambda>(a, x, lo, hi). hi - lo)") auto

declare bisect_loop.simps [simp del]

definition bisect_left :: "'a::linorder list \<Rightarrow> 'a \<Rightarrow> nat" where
  "bisect_left a x = bisect_loop a x 0 (length a)"

text \<open>
  The function changes \<^verbatim>\<open>token_list\<close> in place and returns nothing; the model returns the
  list after the call. \<^verbatim>\<open>token_list.insert(i, x)\<close> puts \<^verbatim>\<open>x\<close> before position \<^verbatim>\<open>i\<close>.
\<close>

definition insert_one_token_to_ordered_list :: "'a::linorder list \<Rightarrow> 'a \<Rightarrow> 'a list" where
  "insert_one_token_to_ordered_list token_list new_token =
     (let insertion_idx = bisect_left token_list new_token
      in if insertion_idx < length token_list \<and> token_list ! insertion_idx = new_token
         then token_list
         else take insertion_idx token_list @ new_token # drop insertion_idx token_list)"

subsection \<open>The invariant of the main loop\<close>

text \<open>
  What holds of the variables of \<^verbatim>\<open>split\<close> before the iteration at index \<open>cur\<close>: the offsets
  are in ascending order and none exceeds \<^verbatim>\<open>skip\<close>, \<^verbatim>\<open>skip\<close> lies within the text, and the
  starts in \<^verbatim>\<open>states\<close> are strictly ascending, not below \<^verbatim>\<open>skip\<close> and below \<open>cur\<close>.
\<close>

definition scan_inv :: "'c list \<Rightarrow> nat \<Rightarrow> 'c scan \<Rightarrow> bool" where
  "scan_inv text cur s \<longleftrightarrow>
     sorted (offsets s) \<and> (\<forall>x\<in>set (offsets s). x \<le> skip s) \<and> skip s \<le> length text \<and>
     sorted_wrt (<) (map fst (states s)) \<and>
     (\<forall>k\<in>fst ` set (states s). skip s \<le> k \<and> k < cur)"

subsection \<open>Well-formed nodes\<close>

text \<open>
  A Python dictionary holds each key once: in every node the character keys are distinct.
\<close>

fun wf_node :: "'c node \<Rightarrow> bool" where
  "wf_node (Node t cs) = (distinct (map fst cs) \<and> list_all (\<lambda>p. wf_node (snd p)) cs)"

subsection \<open>The longest match along a text\<close>

text \<open>
  \<open>u\<close> is the longest prefix of \<open>rest\<close> whose walk from the node \<open>n\<close> ends at a terminal
  node.
\<close>

definition longest_match :: "'c node \<Rightarrow> 'c list \<Rightarrow> 'c list \<Rightarrow> bool" where
  "longest_match n rest u \<longleftrightarrow>
     prefix u rest \<and> ends_terminal n u \<and>
     (\<forall>s. prefix s rest \<and> length u < length s \<longrightarrow> \<not> ends_terminal n s)"

subsection \<open>The trie in a store of dictionaries\<close>

text \<open>
  For what a method does to the trie, the node dictionaries are objects in a store and are
  named by references (addresses): \<^verbatim>\<open>self.data\<close> refers to the root dictionary, a character
  key of a dictionary is mapped to the reference of the child dictionary, and the values
  that \<^verbatim>\<open>split\<close> keeps in \<^verbatim>\<open>states\<close> are references to dictionaries of the trie itself, not
  copies of them. \<open>term_key\<close> says that the key \<^verbatim>\<open>""\<close> is present.
\<close>

type_synonym addr = nat

record 'c dict =
  term_key :: bool
  char_keys :: "('c \<times> addr) list"

text \<open>
  The state a method of a trie object runs in: the store of dictionaries with the next
  unused address, and the two attributes \<^verbatim>\<open>self.data\<close> and \<^verbatim>\<open>self._tokens\<close>.
\<close>

record 'c store =
  heap :: "addr \<Rightarrow> 'c dict"
  fresh :: addr
  self_data :: addr
  self_tokens :: "'c list set"

text \<open>\<^verbatim>\<open>Trie()\<close>: an empty root dictionary at address 0 and no tokens.\<close>

definition new_trie :: "'c store" where
  "new_trie = \<lparr>heap = (\<lambda>a. \<lparr>term_key = False, char_keys = []\<rparr>), fresh = 1,
                self_data = 0, self_tokens = {}\<rparr>"

text \<open>
  \<^verbatim>\<open>add\<close> writes to the store: \<^verbatim>\<open>ref.setdefault(char, {})\<close> allocates an empty dictionary
  when the key is absent, \<^verbatim>\<open>ref[char] = ...\<close> stores the reference under the key, and the
  last statement sets the key \<^verbatim>\<open>""\<close> of the dictionary reached.
\<close>

fun add_chars_ref :: "'c list \<Rightarrow> addr \<Rightarrow> 'c store \<Rightarrow> 'c store" where
  "add_chars_ref [] ref \<sigma> = \<sigma>\<lparr>heap := (heap \<sigma>)(ref := (heap \<sigma> ref)\<lparr>term_key := True\<rparr>)\<rparr>"
| "add_chars_ref (ch # w) ref \<sigma> =
     (case map_of (char_keys (heap \<sigma> ref)) ch of
        Some a \<Rightarrow>
          add_chars_ref w a
            (\<sigma>\<lparr>heap := (heap \<sigma>)(ref := (heap \<sigma> ref)
                 \<lparr>char_keys := AList.update ch a (char_keys (heap \<sigma> ref))\<rparr>)\<rparr>)
      | None \<Rightarrow>
          add_chars_ref w (fresh \<sigma>)
            (\<sigma>\<lparr>heap := (heap \<sigma>)
                 (fresh \<sigma> := \<lparr>term_key = False, char_keys = []\<rparr>,
                  ref := (heap \<sigma> ref)
                    \<lparr>char_keys := AList.update ch (fresh \<sigma>) (char_keys (heap \<sigma> ref))\<rparr>),
               fresh := fresh \<sigma> + 1\<rparr>))"

definition add_ref :: "'c list \<Rightarrow> 'c store \<Rightarrow> 'c store" where
  "add_ref word \<sigma> =
     (if word = [] then \<sigma>
      else add_chars_ref word (self_data \<sigma>) (\<sigma>\<lparr>self_tokens := insert word (self_tokens \<sigma>)\<rparr>))"

text \<open>
  \<^verbatim>\<open>split\<close> in the store. A statement is a function from the store before it to its result
  and the store after it, and every loop hands the store its body leaves to the next
  iteration. The local variables \<^verbatim>\<open>states\<close> (start offset to reference), \<^verbatim>\<open>offsets\<close>,
  \<^verbatim>\<open>skip\<close> and \<^verbatim>\<open>end\<close> are objects that \<^verbatim>\<open>split\<close> creates itself; they are no part of the
  store of trie dictionaries. The functions follow those of the section on \<^verbatim>\<open>split\<close>
  statement by statement, with a reference where those have the node.
\<close>

record locals =
  rstates :: "(nat \<times> addr) list"
  roffsets :: "nat list"
  rskip :: nat
  rend :: "nat option"

function lookahead_while_ref ::
  "'c list \<Rightarrow> nat \<Rightarrow> addr \<Rightarrow> nat \<Rightarrow> 'c option \<Rightarrow> nat \<times> nat option \<times> nat \<Rightarrow> 'c store
     \<Rightarrow> (error + (nat \<times> nat option \<times> nat)) \<times> 'c store" where
  "lookahead_while_ref text lookstart ptr idx next_char acc \<sigma> =
     (case next_char of
        None \<Rightarrow> (Inr acc, \<sigma>)
      | Some ch \<Rightarrow>
          (case map_of (char_keys (heap \<sigma> ptr)) ch of
             None \<Rightarrow> (Inr acc, \<sigma>)
           | Some ptr' \<Rightarrow>
               (if idx + 1 = length text
                then (Inr (if term_key (heap \<sigma> ptr') then (lookstart, Some (idx + 1), idx + 1)
                           else acc), \<sigma>)
                else if idx + 1 < length text
                then lookahead_while_ref text lookstart ptr' (idx + 1) (Some (text ! (idx + 1)))
                       (if term_key (heap \<sigma> ptr') then (lookstart, Some (idx + 1), idx + 1)
                        else acc) \<sigma>
                else (Inl IndexError, \<sigma>))))"
  by pat_completeness auto
termination
  by (relation "measure (\<lambda>(text, lookstart, ptr, idx, next_char, acc, \<sigma>). length text - idx)")
    auto

declare lookahead_while_ref.simps [simp del]

fun lookahead_ref ::
  "'c list \<Rightarrow> nat \<Rightarrow> (nat \<times> addr) list \<Rightarrow> nat \<times> nat option \<times> nat \<Rightarrow> 'c store
     \<Rightarrow> (error + (nat \<times> nat option \<times> nat)) \<times> 'c store" where
  "lookahead_ref text current [] acc \<sigma> = (Inr acc, \<sigma>)"
| "lookahead_ref text current ((lookstart, looktrie_pointer) # rest) (start, en, sk) \<sigma> =
     (if lookstart > start then (Inr (start, en, sk), \<sigma>)
      else
        (let lookahead_index = (if lookstart < start then current + 1 else current);
             next_char = (if lookahead_index < length text
                          then Some (text ! lookahead_index) else None)
         in case lookahead_while_ref text lookstart looktrie_pointer lookahead_index next_char
                   (if term_key (heap \<sigma> looktrie_pointer)
                    then (lookstart, Some lookahead_index, lookahead_index)
                    else (start, Some lookahead_index, sk)) \<sigma> of
              (Inl e, \<sigma>') \<Rightarrow> (Inl e, \<sigma>')
            | (Inr acc', \<sigma>') \<Rightarrow> lookahead_ref text current rest acc' \<sigma>'))"

fun match_states_ref ::
  "'c list \<Rightarrow> nat \<Rightarrow> 'c \<Rightarrow> (nat \<times> addr) list \<Rightarrow> locals \<Rightarrow> nat list \<Rightarrow> 'c store
     \<Rightarrow> (error + (locals \<times> nat list \<times> bool)) \<times> 'c store" where
  "match_states_ref text current current_char [] l to_remove \<sigma> = (Inr (l, to_remove, False), \<sigma>)"
| "match_states_ref text current current_char ((start, trie_pointer) # items) l to_remove \<sigma> =
     (if term_key (heap \<sigma> trie_pointer) then
        (case lookahead_ref text current (rstates l) (start, rend l, rskip l) \<sigma> of
           (Inl e, \<sigma>') \<Rightarrow> (Inl e, \<sigma>')
         | (Inr (start', None, skip'), \<sigma>') \<Rightarrow> (Inl UnboundLocalError, \<sigma>')
         | (Inr (start', Some end', skip'), \<sigma>') \<Rightarrow>
             (Inr (l\<lparr>roffsets := roffsets l @ [start', end'], rskip := skip', rend := Some end'\<rparr>,
                   to_remove, True), \<sigma>'))
      else
        (case map_of (char_keys (heap \<sigma> trie_pointer)) current_char of
           Some trie_pointer' \<Rightarrow>
             match_states_ref text current current_char items
               (l\<lparr>rstates := AList.update start trie_pointer' (rstates l)\<rparr>) to_remove \<sigma>
         | None \<Rightarrow>
             match_states_ref text current current_char items l (List.insert start to_remove) \<sigma>))"

definition step_ref ::
  "'c list \<Rightarrow> nat \<Rightarrow> 'c \<Rightarrow> locals \<Rightarrow> 'c store \<Rightarrow> (error + locals) \<times> 'c store" where
  "step_ref text current current_char l \<sigma> =
     (if rskip l \<noteq> 0 \<and> current < rskip l then (Inr l, \<sigma>)
      else
        (case match_states_ref text current current_char (rstates l) l [] \<sigma> of
           (Inl e, \<sigma>') \<Rightarrow> (Inl e, \<sigma>')
         | (Inr (l1, to_remove, reset), \<sigma>') \<Rightarrow>
             (case (if reset then Inr [] else del_states to_remove (rstates l1)) of
                Inl e \<Rightarrow> (Inl e, \<sigma>')
              | Inr sts \<Rightarrow>
                  (case (if current \<ge> rskip l1
                         then map_of (char_keys (heap \<sigma>' (self_data \<sigma>'))) current_char
                         else None) of
                     Some a \<Rightarrow> (Inr (l1\<lparr>rstates := AList.update current a sts\<rparr>), \<sigma>')
                   | None \<Rightarrow> (Inr (l1\<lparr>rstates := sts\<rparr>), \<sigma>')))))"

fun scan_text_ref ::
  "'c list \<Rightarrow> nat \<Rightarrow> 'c list \<Rightarrow> locals \<Rightarrow> 'c store \<Rightarrow> (error + locals) \<times> 'c store" where
  "scan_text_ref text current [] l \<sigma> = (Inr l, \<sigma>)"
| "scan_text_ref text current (ch # rest) l \<sigma> =
     (case step_ref text current ch l \<sigma> of
        (Inl e, \<sigma>') \<Rightarrow> (Inl e, \<sigma>')
      | (Inr l', \<sigma>') \<Rightarrow> scan_text_ref text (current + 1) rest l' \<sigma>')"

fun final_cut_ref :: "nat \<Rightarrow> (nat \<times> addr) list \<Rightarrow> nat list \<Rightarrow> 'c store \<Rightarrow> nat list \<times> 'c store" where
  "final_cut_ref n [] offs \<sigma> = (offs, \<sigma>)"
| "final_cut_ref n ((start, trie_pointer) # rest) offs \<sigma> =
     (if term_key (heap \<sigma> trie_pointer) then (offs @ [start, n], \<sigma>)
      else final_cut_ref n rest offs \<sigma>)"

text \<open>
  \<^verbatim>\<open>cut_text\<close> works on the text and on the list of offsets only; it reads and writes no
  dictionary and no attribute of \<^verbatim>\<open>self\<close>.
\<close>

definition split_ref :: "'c list \<Rightarrow> 'c store \<Rightarrow> (error + 'c list list) \<times> 'c store" where
  "split_ref text \<sigma> =
     (case scan_text_ref text 0 text \<lparr>rstates = [], roffsets = [0], rskip = 0, rend = None\<rparr> \<sigma> of
        (Inl e, \<sigma>') \<Rightarrow> (Inl e, \<sigma>')
      | (Inr l, \<sigma>') \<Rightarrow>
          (case final_cut_ref (length text) (rstates l) (roffsets l) \<sigma>' of
             (offs, \<sigma>'') \<Rightarrow> (cut_text text offs, \<sigma>'')))"

text \<open>A sequence of \<^verbatim>\<open>split\<close> calls on one trie object, each in the store the one before left.\<close>

fun split_calls_ref ::
  "'c list list \<Rightarrow> 'c store \<Rightarrow> (error + 'c list list) list \<times> 'c store" where
  "split_calls_ref [] \<sigma> = ([], \<sigma>)"
| "split_calls_ref (text # texts) \<sigma> =
     (case split_ref text \<sigma> of
        (r, \<sigma>') \<Rightarrow> (case split_calls_ref texts \<sigma>' of (rs, \<sigma>'') \<Rightarrow> (r # rs, \<sigma>'')))"

subsection \<open>The matches that \<^verbatim>\<open>split\<close> accepts\<close>

text \<open>
  The list \<^verbatim>\<open>offsets\<close> as \<^verbatim>\<open>split\<close> hands it to \<^verbatim>\<open>cut_text\<close>: the forced cut 0 and then,
  for every match the scan accepted, its start and its end (\<^verbatim>\<open>offsets.append(start)\<close>,
  \<^verbatim>\<open>offsets.append(end)\<close>), in the order of acceptance.
\<close>

definition split_offsets :: "'c Trie \<Rightarrow> 'c list \<Rightarrow> error + nat list" where
  "split_offsets T text =
     (case scan_text (data T) text 0 text \<lparr>states = [], offsets = [0], skip = 0, endv = None\<rparr> of
        Inl e \<Rightarrow> Inl e
      | Inr s \<Rightarrow> Inr (final_cut (length text) (states s) (offsets s)))"

text \<open>The pairs (start, end) that a list of cut points reads as, two by two.\<close>

fun cuts :: "nat list \<Rightarrow> (nat \<times> nat) list" where
  "cuts (s # e # rest) = (s, e) # cuts rest"
| "cuts [] = []"
| "cuts [x] = []"

text \<open>The matches accepted on a text: the pairs after the forced cut 0.\<close>

definition matches :: "'c Trie \<Rightarrow> 'c list \<Rightarrow> (nat \<times> nat) list" where
  "matches T text = (case split_offsets T text of Inl e \<Rightarrow> [] | Inr offs \<Rightarrow> cuts (tl offs))"

text \<open>
  A second invariant of the main loop, before the iteration at index \<open>cur\<close>: \<^verbatim>\<open>offsets\<close> is the
  forced cut followed by pairs, and when \<^verbatim>\<open>skip\<close> has been set it is the end of the last
  pair, whose start lies more than one index back.
\<close>

definition cut_inv :: "nat \<Rightarrow> 'c scan \<Rightarrow> bool" where
  "cut_inv cur s \<longleftrightarrow>
     odd (length (offsets s)) \<and>
     (skip s \<noteq> 0 \<longrightarrow> (\<exists>offs1 st. offsets s = offs1 @ [st, skip s] \<and> st + 1 < cur))"

subsection \<open>Stores that represent a node tree\<close>

text \<open>
  The dictionary at an address represents a node when it has the key \<^verbatim>\<open>""\<close> exactly when
  the node is terminal and has the same character keys in the same order, each mapped to
  the address of a dictionary that represents the child. The local variables of the two
  forms of \<^verbatim>\<open>split\<close> correspond when they agree but for references in place of nodes.
\<close>

fun represents :: "(addr \<Rightarrow> 'c dict) \<Rightarrow> addr \<Rightarrow> 'c node \<Rightarrow> bool" where
  "represents h a (Node t cs) \<longleftrightarrow>
     term_key (h a) = t \<and>
     list_all2 (\<lambda>p q. fst p = fst q \<and> represents h (snd p) (snd q)) (char_keys (h a)) cs"

definition rel_states :: "(addr \<Rightarrow> 'c dict) \<Rightarrow> (nat \<times> addr) list \<Rightarrow> (nat \<times> 'c node) list \<Rightarrow> bool" where
  "rel_states h xs ys = list_all2 (\<lambda>p q. fst p = fst q \<and> represents h (snd p) (snd q)) xs ys"

definition rel_locals :: "(addr \<Rightarrow> 'c dict) \<Rightarrow> locals \<Rightarrow> 'c scan \<Rightarrow> bool" where
  "rel_locals h l s \<longleftrightarrow>
     rel_states h (rstates l) (states s) \<and> roffsets l = offsets s \<and> rskip l = skip s \<and>
     rend l = endv s"

section \<open>Insertion is idempotent\<close>

lemma add_chars_twice: "add_chars w (add_chars w n) = add_chars w n"
proof (induction w arbitrary: n)
  case Nil
  show ?case by (cases n) simp
next
  case (Cons c w)
  show ?case by (cases n) (simp add: AList.update_conv' Cons.IH)
qed

lemma add_twice: "add w (add w T) = add w T"
  by (simp add: add_def add_chars_twice)

lemma add_funpow: "(add w ^^ Suc n) T = add w T"
  by (induction n) (simp_all add: add_twice)

text \<open>
  Claim C7. Calling \<^verbatim>\<open>add(w)\<close> twice, or any number \<open>n + 1\<close> of times, leaves the trie
  (node tree and token set) as one call leaves it, and so \<^verbatim>\<open>split\<close> returns the same on
  every text.
\<close>

theorem add_idempotent:
  "add w (add w T) = add w T \<and> (add w ^^ Suc n) T = add w T \<and>
   split ((add w ^^ Suc n) T) text = split (add w T) text"
  by (simp only: add_twice add_funpow)

section \<open>The token set and the node tree agree\<close>

lemma ends_terminal_Nil [simp]: "ends_terminal n [] = terminal n"
  by (simp add: ends_terminal_def)

lemma ends_terminal_Cons [simp]:
  "ends_terminal n (c # w) =
     (case map_of (children n) c of None \<Rightarrow> False | Some m \<Rightarrow> ends_terminal m w)"
  by (simp add: ends_terminal_def split: option.splits)

lemma ends_terminal_empty [simp]: "ends_terminal (Node False []) w = False"
  by (cases w) simp_all

lemma ends_terminal_add_chars:
  "ends_terminal (add_chars w n) v \<longleftrightarrow> v = w \<or> ends_terminal n v"
proof (induction w arbitrary: n v)
  case Nil
  show ?case by (cases n; cases v) auto
next
  case (Cons c w)
  obtain t cs where n: "n = Node t cs" by (cases n)
  show ?case
  proof (cases v)
    case Nil
    then show ?thesis by (simp add: n)
  next
    case (Cons d v')
    then show ?thesis
      by (auto simp: n AList.update_conv' Cons.IH split: option.splits)
  qed
qed

lemma agree_add:
  assumes "\<forall>v. v \<in> tokens T \<longleftrightarrow> ends_terminal (data T) v"
  shows "\<forall>v. v \<in> tokens (add w T) \<longleftrightarrow> ends_terminal (data (add w T)) v"
  using assms by (auto simp: add_def ends_terminal_add_chars)

lemma agree_update:
  "\<forall>v. v \<in> tokens T \<longleftrightarrow> ends_terminal (data T) v \<Longrightarrow>
   \<forall>v. v \<in> tokens (update ws T) \<longleftrightarrow> ends_terminal (data (update ws T)) v"
  unfolding update_def
proof (induction ws arbitrary: T)
  case Nil
  then show ?case by simp
next
  case (Cons w ws)
  from Cons.prems have "\<forall>v. v \<in> tokens (add w T) \<longleftrightarrow> ends_terminal (data (add w T)) v"
    by (rule agree_add)
  then show ?case using Cons.IH [of "add w T"] by simp
qed

lemma agree_reachable:
  "reachable T \<Longrightarrow> \<forall>v. v \<in> tokens T \<longleftrightarrow> ends_terminal (data T) v"
proof (induction rule: reachable.induct)
  case (init ws)
  show ?case unfolding Trie_init_def by (rule agree_update) simp
next
  case (add T w)
  from add.IH show ?case by (rule agree_add)
qed

text \<open>
  Claim C8. After construction and any sequence of \<^verbatim>\<open>add\<close> calls, a word is in the token
  set if and only if walking the node tree from the root along its characters ends at a
  node that bears the termination marker.
\<close>

theorem tokens_iff_ends_terminal:
  "reachable T \<Longrightarrow> w \<in> tokens T \<longleftrightarrow> ends_terminal (data T) w"
  using agree_reachable by blast

theorem tokens_iff_ends_terminal_witness:
  "reachable (add ''ab'' (Trie_init [''a'', ''bc''])) \<and>
   (''ab'' \<in> tokens (add ''ab'' (Trie_init [''a'', ''bc''])) \<longleftrightarrow>
    ends_terminal (data (add ''ab'' (Trie_init [''a'', ''bc'']))) ''ab'') \<and>
   ends_terminal (data (add ''ab'' (Trie_init [''a'', ''bc'']))) ''ab'' \<and>
   \<not> ends_terminal (data (add ''ab'' (Trie_init [''a'', ''bc'']))) ''b''"
proof -
  have r: "reachable (add ''ab'' (Trie_init [''a'', ''bc'']))"
    by (intro reachable.intros)
  have "ends_terminal (data (add ''ab'' (Trie_init [''a'', ''bc'']))) ''ab''"
    by (simp add: add_def Trie_init_def update_def)
  moreover have "\<not> ends_terminal (data (add ''ab'' (Trie_init [''a'', ''bc'']))) ''b''"
    by (simp add: add_def Trie_init_def update_def)
  ultimately show ?thesis
    using r tokens_iff_ends_terminal [OF r, of "''ab''"] by simp
qed

section \<open>Fragment extraction on an inverted span\<close>

text \<open>
  Claim C5. On the text \<^verbatim>\<open>"abc"\<close> and the offsets \<^verbatim>\<open>[2, 1]\<close>, whose second cut point lies
  before the first, \<^verbatim>\<open>cut_text\<close> emits \<^verbatim>\<open>"ab"\<close>, then reaches the branch that is meant to
  record the anomaly and skip the span, and raises \<^verbatim>\<open>NameError\<close> there instead of
  returning fragments.
\<close>

theorem cut_text_inverted_raises: "cut_text ''abc'' [2, 1] = Inl NameError"
  by (simp add: cut_text_def)

section \<open>Longest-match disambiguation\<close>

text \<open>
  Claim C2. With exactly the words \<^verbatim>\<open>extra_id_1\<close> and \<^verbatim>\<open>extra_id_100\<close> in the trie,
  \<^verbatim>\<open>split("a extra_id_100 b")\<close> returns the three fragments \<^verbatim>\<open>"a "\<close>, \<^verbatim>\<open>"extra_id_100"\<close>,
  \<^verbatim>\<open>" b"\<close>.
\<close>

theorem split_longest_match:
  "split (Trie_init [''extra_id_1'', ''extra_id_100'']) ''a extra_id_100 b''
     = Inr [''a '', ''extra_id_100'', '' b'']"
  by code_simp

section \<open>Insertion into a sorted list of tokens\<close>

lemma bisect_loop_spec:
  assumes "lo \<le> hi" "hi \<le> length a" "sorted a"
      "\<forall>i<lo. a ! i < x" "\<forall>i. hi \<le> i \<and> i < length a \<longrightarrow> x \<le> a ! i"
  shows "lo \<le> bisect_loop a x lo hi \<and> bisect_loop a x lo hi \<le> hi \<and>
         (\<forall>i<bisect_loop a x lo hi. a ! i < x) \<and>
         (\<forall>i. bisect_loop a x lo hi \<le> i \<and> i < length a \<longrightarrow> x \<le> a ! i)"
  using assms
proof (induction a x lo hi rule: bisect_loop.induct)
  case (1 a x lo hi)
  let ?mid = "(lo + hi) div 2"
  show ?case
  proof (cases "lo < hi")
    case False
    then have "bisect_loop a x lo hi = lo" by (simp add: bisect_loop.simps [of a x lo hi])
    with False "1.prems" show ?thesis by simp
  next
    case True
    then have mid: "lo \<le> ?mid" "?mid < hi" by auto
    show ?thesis
    proof (cases "a ! ?mid < x")
      case less: True
      have below: "\<forall>i<?mid + 1. a ! i < x"
      proof (intro allI impI)
        fix i assume "i < ?mid + 1"
        then have "i \<le> ?mid" by simp
        with "1.prems" mid have "a ! i \<le> a ! ?mid"
          by (auto simp: sorted_iff_nth_mono)
        with less show "a ! i < x" by simp
      qed
      have "?mid + 1 \<le> bisect_loop a x (?mid + 1) hi \<and> bisect_loop a x (?mid + 1) hi \<le> hi \<and>
         (\<forall>i<bisect_loop a x (?mid + 1) hi. a ! i < x) \<and>
         (\<forall>i. bisect_loop a x (?mid + 1) hi \<le> i \<and> i < length a \<longrightarrow> x \<le> a ! i)"
        using "1.IH"(1) [OF True less] mid "1.prems" below by simp
      with True less mid show ?thesis
        by (simp add: bisect_loop.simps [of a x lo hi])
    next
      case geq: False
      have above: "\<forall>i. ?mid \<le> i \<and> i < length a \<longrightarrow> x \<le> a ! i"
      proof (intro allI impI)
        fix i assume "?mid \<le> i \<and> i < length a"
        with "1.prems" have "a ! ?mid \<le> a ! i"
          by (auto simp: sorted_iff_nth_mono)
        with geq show "x \<le> a ! i" by simp
      qed
      have "lo \<le> bisect_loop a x lo ?mid \<and> bisect_loop a x lo ?mid \<le> ?mid \<and>
         (\<forall>i<bisect_loop a x lo ?mid. a ! i < x) \<and>
         (\<forall>i. bisect_loop a x lo ?mid \<le> i \<and> i < length a \<longrightarrow> x \<le> a ! i)"
        using "1.IH"(2) [OF True geq] mid "1.prems" above by simp
      with True geq mid show ?thesis
        by (simp add: bisect_loop.simps [of a x lo hi])
    qed
  qed
qed

lemma bisect_left_spec:
  assumes "sorted a"
  shows "bisect_left a x \<le> length a \<and> (\<forall>i<bisect_left a x. a ! i < x) \<and>
         (\<forall>i. bisect_left a x \<le> i \<and> i < length a \<longrightarrow> x \<le> a ! i)"
proof -
  have "\<forall>i. length a \<le> i \<and> i < length a \<longrightarrow> x \<le> a ! i" by auto
  with bisect_loop_spec [of 0 "length a" a x] assms show ?thesis
    by (simp add: bisect_left_def)
qed

lemma bisect_left_member:
  assumes "sorted a" "x \<in> set a"
  shows "bisect_left a x < length a \<and> a ! bisect_left a x = x"
proof -
  let ?r = "bisect_left a x"
  from assms(2) obtain j where j: "j < length a" "a ! j = x" by (auto simp: in_set_conv_nth)
  from bisect_left_spec [OF assms(1), of x]
  have below: "\<forall>i<?r. a ! i < x" and above: "\<forall>i. ?r \<le> i \<and> i < length a \<longrightarrow> x \<le> a ! i"
    by blast+
  from below j have "?r \<le> j" by (metis not_le_imp_less less_irrefl)
  with j have lt: "?r < length a" by simp
  from assms(1) \<open>?r \<le> j\<close> j have "a ! ?r \<le> x" by (auto simp: sorted_iff_nth_mono)
  moreover from above lt have "x \<le> a ! ?r" by simp
  ultimately show ?thesis using lt by simp
qed

lemma insert_at_bisect:
  assumes "sorted a" "distinct a" "x \<notin> set a"
  shows "sorted (take (bisect_left a x) a @ x # drop (bisect_left a x) a) \<and>
         distinct (take (bisect_left a x) a @ x # drop (bisect_left a x) a)"
proof -
  let ?r = "bisect_left a x"
  from bisect_left_spec [OF assms(1), of x]
  have r: "?r \<le> length a" and below: "\<forall>i<?r. a ! i < x"
    and above: "\<forall>i. ?r \<le> i \<and> i < length a \<longrightarrow> x \<le> a ! i"
    by blast+
  have t: "\<forall>y\<in>set (take ?r a). y < x"
    using below r by (auto simp: in_set_conv_nth)
  have d: "\<forall>y\<in>set (drop ?r a). x \<le> y"
    using above by (auto simp: in_set_conv_nth)
  have d': "\<forall>y\<in>set (drop ?r a). x < y"
  proof
    fix y assume y: "y \<in> set (drop ?r a)"
    then have "y \<in> set a" by (rule in_set_dropD)
    with assms(3) have "y \<noteq> x" by auto
    with d y show "x < y" by auto
  qed
  have s1: "sorted (take ?r a)" and s2: "sorted (drop ?r a)"
    using assms(1) by (simp_all add: sorted_wrt_take sorted_wrt_drop)
  have "sorted (take ?r a @ x # drop ?r a)"
    using s1 s2 t d' by (fastforce simp: sorted_append)
  moreover have "distinct (take ?r a @ x # drop ?r a)"
    using assms(2) t d' distinct_append [of "take ?r a" "drop ?r a"]
    by (fastforce simp: distinct_append)
  ultimately show ?thesis by simp
qed

text \<open>
  Claim C10. For a sorted list \<open>L\<close> without duplicates and a token \<open>t\<close>: when \<open>t\<close> is
  in \<open>L\<close> the list is left as it is; otherwise \<open>t\<close> is put at the insertion point of
  the binary search, and the list after the call is sorted, has no duplicates and holds
  the old elements and \<open>t\<close>.
\<close>

theorem insert_unique_sorted:
  assumes "sorted L" "distinct L"
  shows "(t \<in> set L \<longrightarrow> insert_one_token_to_ordered_list L t = L) \<and>
         (t \<notin> set L \<longrightarrow>
            insert_one_token_to_ordered_list L t
              = take (bisect_left L t) L @ t # drop (bisect_left L t) L \<and>
            sorted (insert_one_token_to_ordered_list L t) \<and>
            distinct (insert_one_token_to_ordered_list L t) \<and>
            mset (insert_one_token_to_ordered_list L t) = add_mset t (mset L))"
proof (intro conjI impI)
  assume "t \<in> set L"
  with bisect_left_member [OF assms(1)] show "insert_one_token_to_ordered_list L t = L"
    by (simp add: insert_one_token_to_ordered_list_def)
next
  assume nin: "t \<notin> set L"
  have neq: "\<not> (bisect_left L t < length L \<and> L ! bisect_left L t = t)"
    using nin by (auto simp: in_set_conv_nth)
  then show eq: "insert_one_token_to_ordered_list L t
              = take (bisect_left L t) L @ t # drop (bisect_left L t) L"
    by (auto simp: insert_one_token_to_ordered_list_def Let_def)
  from insert_at_bisect [OF assms nin] eq
  show "sorted (insert_one_token_to_ordered_list L t)"
    and "distinct (insert_one_token_to_ordered_list L t)" by simp_all
  have "mset (take (bisect_left L t) L) + mset (drop (bisect_left L t) L) = mset L"
    by (metis append_take_drop_id mset_append)
  then have "mset (take (bisect_left L t) L @ t # drop (bisect_left L t) L) = add_mset t (mset L)"
    by simp
  with eq show "mset (insert_one_token_to_ordered_list L t) = add_mset t (mset L)"
    by simp
qed

theorem insert_unique_sorted_witness:
  "sorted [''a'', ''c''] \<and> distinct [''a'', ''c''] \<and>
   insert_one_token_to_ordered_list [''a'', ''c''] ''b'' = [''a'', ''b'', ''c''] \<and>
   insert_one_token_to_ordered_list [''a'', ''c''] ''c'' = [''a'', ''c'']"
proof -
  have h: "sorted [''a'', ''c'']" "distinct [''a'', ''c'']" by simp_all
  have b: "bisect_left [''a'', ''c''] ''b'' = 1" "bisect_left [''a'', ''c''] ''c'' = 1"
    by code_simp+
  from insert_unique_sorted [OF h, of "''b''"] insert_unique_sorted [OF h, of "''c''"] h b
  show ?thesis by simp
qed

section \<open>\<^verbatim>\<open>split\<close> returns fragments that concatenate to the text\<close>

lemma cut_loop_concat:
  "cut_loop text es start toks = Inr r \<Longrightarrow> concat toks = take start text \<Longrightarrow>
   concat r = take (last (start # es)) text"
proof (induction es arbitrary: start toks)
  case Nil
  then show ?case by simp
next
  case (Cons e es)
  show ?case
  proof (cases "start = e")
    case True
    with Cons.prems have "cut_loop text es start toks = Inr r" by simp
    from Cons.IH [OF this Cons.prems(2)] True show ?thesis by simp
  next
    case False
    with Cons.prems(1) have lt: "start < e"
      by (cases "e < start") simp_all
    with Cons.prems(1) have run: "cut_loop text es e (toks @ [take (e - start) (drop start text)]) = Inr r"
      by simp
    have "take e text = take start text @ take (e - start) (drop start text)"
      using lt take_add [of start "e - start" "text"] by simp
    with Cons.prems(2) have "concat (toks @ [take (e - start) (drop start text)]) = take e text"
      by simp
    from Cons.IH [OF run this] show ?thesis by simp
  qed
qed

lemma cut_loop_sorted:
  "sorted (start # es) \<Longrightarrow> \<exists>r. cut_loop text es start toks = Inr r"
proof (induction es arbitrary: start toks)
  case Nil
  then show ?case by simp
next
  case (Cons e es)
  from Cons.prems have le: "start \<le> e" and s: "sorted (e # es)" by simp_all
  show ?case
  proof (cases "start = e")
    case True
    with Cons.IH [OF s] show ?thesis by simp
  next
    case False
    with le Cons.IH [OF s] show ?thesis by simp
  qed
qed

lemma cut_text_sorted:
  assumes "sorted (offs @ [length text])"
  shows "\<exists>r. cut_text text offs = Inr r \<and> concat r = text"
proof -
  from assms have "sorted (0 # offs @ [length text])" by simp
  from cut_loop_sorted [OF this] obtain r where r: "cut_loop text (offs @ [length text]) 0 [] = Inr r"
    by blast
  from cut_loop_concat [OF r] have "concat r = text" by simp
  with r show ?thesis by (simp add: cut_text_def)
qed

lemma lookahead_while_ok:
  "nc = None \<or> idx < length tx \<Longrightarrow>
   \<exists>r. lookahead_while tx ls ptr idx nc acc = Inr r \<and>
       (r = acc \<or> (\<exists>j. idx < j \<and> j \<le> length tx \<and> r = (ls, Some j, j)))"
proof (induction tx ls ptr idx nc acc rule: lookahead_while.induct)
  case (1 tx ls ptr idx nc acc)
  show ?case
  proof (cases nc)
    case None
    then show ?thesis by (subst lookahead_while.simps) simp
  next
    case nc: (Some ch)
    with "1.prems" have lt: "idx < length tx" by simp
    show ?thesis
    proof (cases "map_of (children ptr) ch")
      case None
      with nc show ?thesis by (subst lookahead_while.simps) simp
    next
      case child: (Some ptr')
      let ?acc = "if terminal ptr' then (ls, Some (idx + 1), idx + 1) else acc"
      show ?thesis
      proof (cases "idx + 1 = length tx")
        case True
        with nc child show ?thesis by (subst lookahead_while.simps) auto
      next
        case False
        with lt have lt': "idx + 1 < length tx" by simp
        from "1.IH" [OF nc child False lt'] lt'
        obtain r where r: "lookahead_while tx ls ptr' (idx + 1) (Some (tx ! (idx + 1))) ?acc = Inr r"
          and d: "r = ?acc \<or> (\<exists>j. idx + 1 < j \<and> j \<le> length tx \<and> r = (ls, Some j, j))"
          by blast
        have eq: "lookahead_while tx ls ptr idx nc acc = Inr r"
          using nc child False lt' r by (subst lookahead_while.simps) simp
        from d lt' have "r = acc \<or> (\<exists>j. idx < j \<and> j \<le> length tx \<and> r = (ls, Some j, j))"
          by (cases "terminal ptr'") (auto intro: exI [of _ "idx + 1"])
        with eq show ?thesis by blast
      qed
    qed
  qed
qed

lemma lookahead_later:
  "\<forall>k\<in>fst ` set items. start < k \<Longrightarrow> lookahead text cur items (start, en, sk) = Inr (start, en, sk)"
  by (cases items) auto

lemma lookahead_ok:
  assumes "sorted_wrt (<) (map fst items)" "cur < length text"
    "map_of items start = Some ptr" "terminal ptr"
  shows "\<exists>st e. lookahead text cur items (start, en, sk) = Inr (st, Some e, e) \<and>
           st \<in> fst ` set items \<and> cur \<le> e \<and> e \<le> length text"
  using assms
proof (induction items arbitrary: en sk)
  case Nil
  then show ?case by simp
next
  case (Cons item rest)
  obtain ls lp where item: "item = (ls, lp)" by (cases item)
  from Cons.prems(1) item have later: "\<forall>k\<in>fst ` set rest. ls < k"
    and srest: "sorted_wrt (<) (map fst rest)" by auto
  show ?case
  proof (cases "ls = start")
    case True
    with Cons.prems(3,4) item have tm: "terminal lp" by simp
    let ?nc = "if cur < length text then Some (text ! cur) else None"
    have "?nc = None \<or> cur < length text" using Cons.prems(2) by simp
    from lookahead_while_ok [OF this, of ls lp "(ls, Some cur, cur)"]
    obtain r where r: "lookahead_while text ls lp cur ?nc (ls, Some cur, cur) = Inr r"
      and d: "r = (ls, Some cur, cur) \<or> (\<exists>j. cur < j \<and> j \<le> length text \<and> r = (ls, Some j, j))"
      by blast
    from d Cons.prems(2) obtain e where e: "r = (ls, Some e, e)" "cur \<le> e" "e \<le> length text"
      by auto
    have "lookahead text cur (item # rest) (start, en, sk) = lookahead text cur rest r"
      using True item tm r by (auto split: if_splits)
    also have "\<dots> = Inr (ls, Some e, e)"
      unfolding e(1) using later by (rule lookahead_later)
    finally show ?thesis using e item by auto
  next
    case False
    have "start \<in> fst ` set (item # rest)"
      using Cons.prems(3) by (metis map_of_eq_None_iff option.distinct(1))
    with False item later have lt: "ls < start" by auto
    from False item Cons.prems(3) have mrest: "map_of rest start = Some ptr" by simp
    let ?idx = "cur + 1"
    let ?nc = "if ?idx < length text then Some (text ! ?idx) else None"
    let ?acc = "if terminal lp then (ls, Some ?idx, ?idx) else (start, Some ?idx, sk)"
    have "?nc = None \<or> ?idx < length text" by simp
    from lookahead_while_ok [OF this, of ls lp ?acc]
    obtain r where r: "lookahead_while text ls lp ?idx ?nc ?acc = Inr r"
      and d: "r = ?acc \<or> (\<exists>j. ?idx < j \<and> j \<le> length text \<and> r = (ls, Some j, j))"
      by blast
    have step: "lookahead text cur (item # rest) (start, en, sk) = lookahead text cur rest r"
      using lt item r by (auto split: if_splits)
    show ?thesis
    proof (cases "r = (start, Some ?idx, sk)")
      case True
      from Cons.IH [OF srest Cons.prems(2) mrest Cons.prems(4), of "Some ?idx" sk] step True
      show ?thesis by auto
    next
      case False
      with d lt Cons.prems(2) obtain e where e: "r = (ls, Some e, e)" "cur \<le> e" "e \<le> length text"
        by (cases "terminal lp") auto
      have "lookahead text cur rest r = Inr (ls, Some e, e)"
        unfolding e(1) using later by (rule lookahead_later)
      with step e item show ?thesis by auto
    qed
  qed
qed


lemma update_present_keys:
  "k \<in> fst ` set al \<Longrightarrow> map fst (AList.update k v al) = map fst al"
  by (simp add: AList.update_keys)

lemma match_states_ok:
  assumes "sorted_wrt (<) (map fst (states s))" "cur < length text"
    "distinct (map fst items)" "\<forall>(k, p)\<in>set items. map_of (states s) k = Some p"
    "set tr \<subseteq> fst ` set (states s)" "distinct tr"
  shows "\<exists>s' tr' reset. match_states text cur ch items s tr = Inr (s', tr', reset) \<and>
     (if reset
      then (\<exists>st e. offsets s' = offsets s @ [st, e] \<and> skip s' = e \<and>
              st \<in> fst ` set (states s) \<and> cur \<le> e \<and> e \<le> length text)
      else offsets s' = offsets s \<and> skip s' = skip s \<and>
           map fst (states s') = map fst (states s) \<and>
           set tr' \<subseteq> fst ` set (states s) \<and> distinct tr')"
  using assms
proof (induction items arbitrary: s tr)
  case Nil
  then show ?case by (intro exI [of _ s] exI [of _ tr] exI [of _ False]) simp
next
  case (Cons item items)
  obtain start tp where item: "item = (start, tp)" by (cases item)
  from Cons.prems(4) item have here: "map_of (states s) start = Some tp" by simp
  then have key: "start \<in> fst ` set (states s)"
    by (metis map_of_eq_None_iff option.distinct(1))
  from Cons.prems(3) item have drest: "distinct (map fst items)"
    and fresh: "start \<notin> fst ` set items" by simp_all
  show ?case
  proof (cases "terminal tp")
    case True
    from lookahead_ok [OF Cons.prems(1,2) here True, of "endv s" "skip s"]
    obtain st e where "lookahead text cur (states s) (start, endv s, skip s) = Inr (st, Some e, e)"
      and "st \<in> fst ` set (states s)" "cur \<le> e" "e \<le> length text"
      by blast
    with True item show ?thesis
      by (intro exI [of _ "s\<lparr>offsets := offsets s @ [st, e], skip := e, endv := Some e\<rparr>"]
            exI [of _ tr] exI [of _ True]) simp
  next
    case nt: False
    show ?thesis
    proof (cases "map_of (children tp) ch")
      case None
      have "set (List.insert start tr) \<subseteq> fst ` set (states s)"
        using key Cons.prems(5) by simp
      moreover have "distinct (List.insert start tr)"
        using Cons.prems(6) by simp
      moreover have "\<forall>(k, p)\<in>set items. map_of (states s) k = Some p"
        using Cons.prems(4) by simp
      ultimately have "\<exists>s' tr' reset.
          match_states text cur ch items s (List.insert start tr) = Inr (s', tr', reset) \<and>
          (if reset
           then (\<exists>st e. offsets s' = offsets s @ [st, e] \<and> skip s' = e \<and>
                   st \<in> fst ` set (states s) \<and> cur \<le> e \<and> e \<le> length text)
           else offsets s' = offsets s \<and> skip s' = skip s \<and>
                map fst (states s') = map fst (states s) \<and>
                set tr' \<subseteq> fst ` set (states s) \<and> distinct tr')"
        using Cons.IH [of s "List.insert start tr"] Cons.prems(1,2) drest by blast
      with nt None item show ?thesis by simp
    next
      case (Some tp')
      let ?s = "s\<lparr>states := AList.update start tp' (states s)\<rparr>"
      have keys: "map fst (states ?s) = map fst (states s)"
        using key by (simp add: update_present_keys)
      then have kset: "fst ` set (states ?s) = fst ` set (states s)"
        by (metis list.set_map)
      have os: "offsets ?s = offsets s" "skip ?s = skip s" by simp_all
      have rest: "\<forall>(k, p)\<in>set items. map_of (states ?s) k = Some p"
      proof (clarify)
        fix k p assume kp: "(k, p) \<in> set items"
        with fresh have "k \<noteq> start" by force
        moreover from kp Cons.prems(4) have "map_of (states s) k = Some p" by auto
        ultimately show "map_of (states ?s) k = Some p"
          by (simp add: AList.update_conv')
      qed
      have "\<exists>s' tr' reset.
          match_states text cur ch items ?s tr = Inr (s', tr', reset) \<and>
          (if reset
           then (\<exists>st e. offsets s' = offsets ?s @ [st, e] \<and> skip s' = e \<and>
                   st \<in> fst ` set (states ?s) \<and> cur \<le> e \<and> e \<le> length text)
           else offsets s' = offsets ?s \<and> skip s' = skip ?s \<and>
                map fst (states s') = map fst (states ?s) \<and>
                set tr' \<subseteq> fst ` set (states ?s) \<and> distinct tr')"
      proof (rule Cons.IH [of ?s tr])
        show "sorted_wrt (<) (map fst (states ?s))" using Cons.prems(1) keys by simp
        show "cur < length text" by (rule Cons.prems(2))
        show "distinct (map fst items)" by (rule drest)
        show "\<forall>(k, p)\<in>set items. map_of (states ?s) k = Some p" by (rule rest)
        show "set tr \<subseteq> fst ` set (states ?s)" using Cons.prems(5) kset by simp
        show "distinct tr" by (rule Cons.prems(6))
      qed
      then have "\<exists>s' tr' reset.
          match_states text cur ch items ?s tr = Inr (s', tr', reset) \<and>
          (if reset
           then (\<exists>st e. offsets s' = offsets s @ [st, e] \<and> skip s' = e \<and>
                   st \<in> fst ` set (states s) \<and> cur \<le> e \<and> e \<le> length text)
           else offsets s' = offsets s \<and> skip s' = skip s \<and>
                map fst (states s') = map fst (states s) \<and>
                set tr' \<subseteq> fst ` set (states s) \<and> distinct tr')"
        unfolding keys kset os .
      with nt Some item show ?thesis by simp
    qed
  qed
qed

lemma del_states_ok:
  "distinct tr \<Longrightarrow> set tr \<subseteq> fst ` set sts \<Longrightarrow> sorted_wrt (<) (map fst sts) \<Longrightarrow>
   \<exists>sts'. del_states tr sts = Inr sts' \<and> sorted_wrt (<) (map fst sts') \<and>
          fst ` set sts' \<subseteq> fst ` set sts"
proof (induction tr arbitrary: sts)
  case Nil
  then show ?case by simp
next
  case (Cons k ks)
  from Cons.prems(2) have "k \<in> fst ` set sts" by simp
  then have present: "map_of sts k \<noteq> None" by (simp add: map_of_eq_None_iff)
  have keys: "map fst (AList.delete k sts) = filter (\<lambda>x. x \<noteq> k) (map fst sts)"
    by (simp add: AList.delete_keys removeAll_filter_not_eq) (metis)
  have kset: "fst ` set (AList.delete k sts) = fst ` set sts - {k}"
    using keys by (metis (no_types, lifting) list.set_map set_filter set_minus_filter_out set_removeAll AList.delete_keys)
  have "sorted_wrt (<) (map fst (AList.delete k sts))"
    unfolding keys using Cons.prems(3) by (rule sorted_wrt_filter)
  moreover have "set ks \<subseteq> fst ` set (AList.delete k sts)"
    using Cons.prems(1,2) kset by auto
  moreover have "distinct ks" using Cons.prems(1) by simp
  ultimately obtain sts' where r: "del_states ks (AList.delete k sts) = Inr sts'"
    "sorted_wrt (<) (map fst sts')" "fst ` set sts' \<subseteq> fst ` set (AList.delete k sts)"
    using Cons.IH [of "AList.delete k sts"] by blast
  from r(3) kset have "fst ` set sts' \<subseteq> fst ` set sts" by blast
  moreover from present r(1) have "del_states (k # ks) sts = Inr sts'" by simp
  ultimately show ?case using r(2) by blast
qed


lemma strict_keys_lookup:
  "sorted_wrt (<) (map fst (al :: (nat \<times> 'b) list)) \<Longrightarrow>
   \<forall>(k, p)\<in>set al. map_of al k = Some p"
  by (auto simp: strict_sorted_iff intro: map_of_is_SomeI)

lemma step_ok:
  assumes inv: "scan_inv text cur s" and cur: "cur < length text"
  shows "\<exists>s'. step root text cur ch s = Inr s' \<and> scan_inv text (cur + 1) s'"
proof (cases "skip s \<noteq> 0 \<and> cur < skip s")
  case True
  then have "step root text cur ch s = Inr s" by (simp add: step_def)
  moreover from inv have "scan_inv text (cur + 1) s" by (auto simp: scan_inv_def)
  ultimately show ?thesis by simp
next
  case False
  have unf: "step root text cur ch s =
     (case match_states text cur ch (states s) s [] of
        Inl e \<Rightarrow> Inl e
      | Inr (s1, to_remove, reset) \<Rightarrow>
          (case (if reset then Inr [] else del_states to_remove (states s1)) of
             Inl e \<Rightarrow> Inl e
           | Inr sts \<Rightarrow>
               (case (if cur \<ge> skip s1 then map_of (children root) ch else None) of
                  Some n \<Rightarrow> Inr (s1\<lparr>states := AList.update cur n sts\<rparr>)
                | None \<Rightarrow> Inr (s1\<lparr>states := sts\<rparr>))))"
    by (simp only: step_def if_not_P [OF False])
  from inv have so: "sorted (offsets s)" and ob: "\<forall>x\<in>set (offsets s). x \<le> skip s"
    and sl: "skip s \<le> length text" and sk: "sorted_wrt (<) (map fst (states s))"
    and kb: "\<forall>k\<in>fst ` set (states s). skip s \<le> k \<and> k < cur"
    by (simp_all add: scan_inv_def)
  from sk have dk: "distinct (map fst (states s))" by (simp add: strict_sorted_iff)
  from match_states_ok [OF sk cur dk strict_keys_lookup [OF sk], of "[]" ch]
  obtain s1 tr reset where m: "match_states text cur ch (states s) s [] = Inr (s1, tr, reset)"
    and c: "if reset
      then (\<exists>st e. offsets s1 = offsets s @ [st, e] \<and> skip s1 = e \<and>
              st \<in> fst ` set (states s) \<and> cur \<le> e \<and> e \<le> length text)
      else offsets s1 = offsets s \<and> skip s1 = skip s \<and>
           map fst (states s1) = map fst (states s) \<and>
           set tr \<subseteq> fst ` set (states s) \<and> distinct tr"
    by auto
  have r1: "reset \<Longrightarrow> \<exists>st e. offsets s1 = offsets s @ [st, e] \<and> skip s1 = e \<and>
              st \<in> fst ` set (states s) \<and> cur \<le> e \<and> e \<le> length text"
    using c by simp
  have r0: "\<not> reset \<Longrightarrow> offsets s1 = offsets s \<and> skip s1 = skip s \<and>
           map fst (states s1) = map fst (states s) \<and>
           set tr \<subseteq> fst ` set (states s) \<and> distinct tr"
    using c by simp
  show ?thesis
  proof (cases reset)
    case True
    from r1 [OF True] obtain st e where o1: "offsets s1 = offsets s @ [st, e]"
      and s1: "skip s1 = e" and st: "st \<in> fst ` set (states s)"
      and e: "cur \<le> e" "e \<le> length text" by blast
    from kb st have stb: "skip s \<le> st" "st < cur" by auto
    have so1: "sorted (offsets s1)"
      unfolding o1 using so ob stb e by (fastforce simp: sorted_append)
    have ob1: "\<forall>x\<in>set (offsets s1). x \<le> skip s1"
      unfolding o1 s1 using ob stb e by fastforce
    show ?thesis
    proof (cases "if cur \<ge> skip s1 then map_of (children root) ch else None")
      case None
      with m True have "step root text cur ch s = Inr (s1\<lparr>states := []\<rparr>)"
        by (simp add: unf)
      moreover have "scan_inv text (cur + 1) (s1\<lparr>states := []\<rparr>)"
        using so1 ob1 s1 e by (simp add: scan_inv_def)
      ultimately show ?thesis by blast
    next
      case (Some n)
      then have ge: "skip s1 \<le> cur" by (simp split: if_splits)
      from m True Some
      have "step root text cur ch s = Inr (s1\<lparr>states := AList.update cur n []\<rparr>)"
        by (simp add: unf)
      moreover have "scan_inv text (cur + 1) (s1\<lparr>states := AList.update cur n []\<rparr>)"
        using so1 ob1 s1 e ge by (simp add: scan_inv_def)
      ultimately show ?thesis by blast
    qed
  next
    case nr: False
    from r0 [OF nr] have o1: "offsets s1 = offsets s" and s1: "skip s1 = skip s"
      and k1: "map fst (states s1) = map fst (states s)"
      and tr: "set tr \<subseteq> fst ` set (states s)" "distinct tr" by simp_all
    from k1 have ks1: "fst ` set (states s1) = fst ` set (states s)" by (metis list.set_map)
    from del_states_ok [of tr "states s1"] tr sk k1 ks1
    obtain sts where d: "del_states tr (states s1) = Inr sts"
      and ss: "sorted_wrt (<) (map fst sts)" and sub: "fst ` set sts \<subseteq> fst ` set (states s)"
      by auto
    from sub kb have kb': "\<forall>k\<in>fst ` set sts. skip s \<le> k \<and> k < cur" by blast
    show ?thesis
    proof (cases "if cur \<ge> skip s1 then map_of (children root) ch else None")
      case None
      with m nr d have "step root text cur ch s = Inr (s1\<lparr>states := sts\<rparr>)"
        by (simp add: unf)
      moreover have "scan_inv text (cur + 1) (s1\<lparr>states := sts\<rparr>)"
        using so ob sl ss kb' o1 s1 by (auto simp: scan_inv_def)
      ultimately show ?thesis by blast
    next
      case (Some n)
      then have ge: "skip s \<le> cur" by (simp add: s1 split: if_splits)
      from m nr d Some
      have "step root text cur ch s = Inr (s1\<lparr>states := AList.update cur n sts\<rparr>)"
        by (simp add: unf)
      moreover have "scan_inv text (cur + 1) (s1\<lparr>states := AList.update cur n sts\<rparr>)"
      proof -
        from kb' have nin: "cur \<notin> fst ` set sts" by auto
        then have keys: "map fst (AList.update cur n sts) = map fst sts @ [cur]"
          by (simp add: AList.update_keys)
        have "sorted_wrt (<) (map fst sts @ [cur])"
          using ss kb' by (auto simp: sorted_wrt_append)
        moreover have "\<forall>k\<in>fst ` set (AList.update cur n sts). skip s \<le> k \<and> k < cur + 1"
          using kb' ge by (auto simp: AList.dom_update)
        ultimately show ?thesis
          using so ob sl o1 s1 keys by (simp add: scan_inv_def)
      qed
      ultimately show ?thesis by blast
    qed
  qed
qed

lemma scan_text_ok:
  "scan_inv text cur s \<Longrightarrow> cur + length rest = length text \<Longrightarrow>
   \<exists>s'. scan_text root text cur rest s = Inr s' \<and> scan_inv text (length text) s'"
proof (induction rest arbitrary: cur s)
  case Nil
  then show ?case by simp
next
  case (Cons ch rest)
  from Cons.prems(2) have "cur < length text" by simp
  from step_ok [OF Cons.prems(1) this, of root ch]
  obtain s1 where s1: "step root text cur ch s = Inr s1" "scan_inv text (cur + 1) s1" by blast
  from Cons.IH [OF s1(2)] Cons.prems(2)
  obtain s' where "scan_text root text (cur + 1) rest s1 = Inr s'" "scan_inv text (length text) s'"
    by auto
  with s1(1) show ?case by simp
qed

lemma final_cut_sorted:
  "sorted offs \<Longrightarrow> \<forall>x\<in>set offs. x \<le> sk \<Longrightarrow> sk \<le> n \<Longrightarrow>
   \<forall>k\<in>fst ` set sts. sk \<le> k \<and> k < n \<Longrightarrow> sorted (final_cut n sts offs @ [n])"
proof (induction sts)
  case Nil
  then show ?case by (fastforce simp: sorted_append)
next
  case (Cons item sts)
  obtain start tp where item: "item = (start, tp)" by (cases item)
  show ?case
  proof (cases "terminal tp")
    case True
    with Cons.prems item show ?thesis by (fastforce simp: sorted_append)
  next
    case False
    with Cons item show ?thesis by simp
  qed
qed

text \<open>
  Every run of \<^verbatim>\<open>split\<close> returns a list of fragments, and they concatenate to the text.
\<close>

lemma split_total: "\<exists>frags. split T text = Inr frags \<and> concat frags = text"
proof -
  let ?s0 = "\<lparr>states = [], offsets = [0], skip = 0, endv = None\<rparr> :: 'a scan"
  have "scan_inv text 0 ?s0" by (simp add: scan_inv_def)
  from scan_text_ok [OF this, of "text" "data T"]
  obtain s where s: "scan_text (data T) text 0 text ?s0 = Inr s" "scan_inv text (length text) s"
    by auto
  from s(2) have "sorted (final_cut (length text) (states s) (offsets s) @ [length text])"
    unfolding scan_inv_def by (intro final_cut_sorted [where sk = "skip s"]) simp_all
  from cut_text_sorted [OF this] s(1) show ?thesis by (simp add: split_def)
qed

text \<open>
  Claim C1. For every trie (so for every vocabulary inserted) and every text, \<^verbatim>\<open>split\<close>
  returns fragments whose concatenation, in order, is exactly the text.
\<close>

theorem split_concat: "\<exists>frags. split T text = Inr frags \<and> concat frags = text"
  by (rule split_total)

text \<open>
  Claim C4. For every trie and every text, \<^verbatim>\<open>split\<close> returns normally: it raises no
  exception, and in particular never reaches the branch of \<^verbatim>\<open>cut_text\<close> for an inverted
  span (where the model raises \<open>NameError\<close>).
\<close>

theorem split_no_exception:
  "(\<exists>frags. split T text = Inr frags) \<and> split T text \<noteq> Inl NameError \<and>
   (\<forall>e. split T text \<noteq> Inl e)"
  using split_total [of T "text"] by auto

section \<open>\<^verbatim>\<open>split\<close> does not change the trie\<close>

lemma lookahead_while_ref_frame:
  "lookahead_while_ref tx ls ptr idx nc acc \<sigma> = (r, \<sigma>') \<Longrightarrow> \<sigma>' = \<sigma>"
proof (induction tx ls ptr idx nc acc \<sigma> rule: lookahead_while_ref.induct)
  case (1 tx ls ptr idx nc acc \<sigma>)
  from "1.prems" show ?case
    by (subst (asm) lookahead_while_ref.simps)
       (auto split: option.splits if_splits dest: "1.IH")
qed

lemma lookahead_ref_frame:
  "lookahead_ref tx cur items acc \<sigma> = (r, \<sigma>') \<Longrightarrow> \<sigma>' = \<sigma>"
proof (induction items arbitrary: acc \<sigma>)
  case Nil
  then show ?case by simp
next
  case (Cons item items)
  obtain ls lp where item: "item = (ls, lp)" by (cases item)
  obtain start en sk where acc: "acc = (start, en, sk)" by (cases acc)
  show ?case
  proof (cases "ls > start")
    case True
    with Cons.prems item acc show ?thesis by simp
  next
    case False
    let ?idx = "if ls < start then cur + 1 else cur"
    let ?nc = "if ?idx < length tx then Some (tx ! ?idx) else None"
    let ?acc = "if term_key (heap \<sigma> lp) then (ls, Some ?idx, ?idx) else (start, Some ?idx, sk)"
    obtain r1 \<sigma>1 where w: "lookahead_while_ref tx ls lp ?idx ?nc ?acc \<sigma> = (r1, \<sigma>1)"
      by (cases "lookahead_while_ref tx ls lp ?idx ?nc ?acc \<sigma>")
    then have s1: "\<sigma>1 = \<sigma>" by (rule lookahead_while_ref_frame)
    show ?thesis
    proof (cases r1)
      case (Inl e)
      with Cons.prems item acc False w s1 show ?thesis by (simp add: Let_def)
    next
      case (Inr acc')
      with Cons.prems item acc False w s1
      have "lookahead_ref tx cur items acc' \<sigma> = (r, \<sigma>')" by (simp add: Let_def)
      then show ?thesis by (rule Cons.IH)
    qed
  qed
qed

lemma match_states_ref_frame:
  "match_states_ref tx cur ch items l tr \<sigma> = (r, \<sigma>') \<Longrightarrow> \<sigma>' = \<sigma>"
proof (induction items arbitrary: l tr)
  case Nil
  then show ?case by simp
next
  case (Cons item items)
  obtain start tp where item: "item = (start, tp)" by (cases item)
  show ?case
  proof (cases "term_key (heap \<sigma> tp)")
    case True
    obtain r1 \<sigma>1 where la: "lookahead_ref tx cur (rstates l) (start, rend l, rskip l) \<sigma> = (r1, \<sigma>1)"
      by (cases "lookahead_ref tx cur (rstates l) (start, rend l, rskip l) \<sigma>")
    then have "\<sigma>1 = \<sigma>" by (rule lookahead_ref_frame)
    with Cons.prems item True la show ?thesis
      by (auto split: sum.splits prod.splits option.splits)
  next
    case False
    with Cons.prems item show ?thesis
      by (auto split: option.splits dest: Cons.IH)
  qed
qed

lemma step_ref_frame: "step_ref tx cur ch l \<sigma> = (r, \<sigma>') \<Longrightarrow> \<sigma>' = \<sigma>"
proof (cases "rskip l \<noteq> 0 \<and> cur < rskip l")
  case True
  assume "step_ref tx cur ch l \<sigma> = (r, \<sigma>')"
  with True show ?thesis by (simp add: step_ref_def)
next
  case False
  assume a: "step_ref tx cur ch l \<sigma> = (r, \<sigma>')"
  obtain r1 \<sigma>1 where m: "match_states_ref tx cur ch (rstates l) l [] \<sigma> = (r1, \<sigma>1)"
    by (cases "match_states_ref tx cur ch (rstates l) l [] \<sigma>")
  then have "\<sigma>1 = \<sigma>" by (rule match_states_ref_frame)
  with a m show ?thesis
    unfolding step_ref_def if_not_P [OF False]
    by (auto split: sum.splits prod.splits option.splits if_splits)
qed

lemma scan_text_ref_frame: "scan_text_ref tx cur rest l \<sigma> = (r, \<sigma>') \<Longrightarrow> \<sigma>' = \<sigma>"
proof (induction rest arbitrary: cur l)
  case Nil
  then show ?case by simp
next
  case (Cons ch rest)
  obtain r1 \<sigma>1 where s: "step_ref tx cur ch l \<sigma> = (r1, \<sigma>1)"
    by (cases "step_ref tx cur ch l \<sigma>")
  then have "\<sigma>1 = \<sigma>" by (rule step_ref_frame)
  with Cons.prems s show ?case
    by (auto split: sum.splits dest: Cons.IH)
qed

lemma final_cut_ref_frame: "final_cut_ref n sts offs \<sigma> = (r, \<sigma>') \<Longrightarrow> \<sigma>' = \<sigma>"
  by (induction sts) (auto split: if_splits)

lemma split_ref_frame: "snd (split_ref tx \<sigma>) = \<sigma>"
proof -
  let ?l0 = "\<lparr>rstates = [], roffsets = [0], rskip = 0, rend = None\<rparr>"
  obtain r1 \<sigma>1 where s: "scan_text_ref tx 0 tx ?l0 \<sigma> = (r1, \<sigma>1)"
    by (cases "scan_text_ref tx 0 tx ?l0 \<sigma>")
  then have s1: "\<sigma>1 = \<sigma>" by (rule scan_text_ref_frame)
  show ?thesis
  proof (cases r1)
    case (Inl e)
    with s s1 show ?thesis by (simp add: split_ref_def)
  next
    case (Inr l)
    obtain offs \<sigma>2 where f: "final_cut_ref (length tx) (rstates l) (roffsets l) \<sigma> = (offs, \<sigma>2)"
      by (cases "final_cut_ref (length tx) (rstates l) (roffsets l) \<sigma>")
    then have "\<sigma>2 = \<sigma>" by (rule final_cut_ref_frame)
    with Inr s s1 f show ?thesis by (simp add: split_ref_def)
  qed
qed

lemma split_calls_ref_frame:
  "split_calls_ref texts \<sigma> = (map (\<lambda>t. fst (split_ref t \<sigma>)) texts, \<sigma>)"
proof (induction texts)
  case Nil
  show ?case by simp
next
  case (Cons t texts)
  obtain r where "split_ref t \<sigma> = (r, \<sigma>)"
    using split_ref_frame [of t \<sigma>] by (cases "split_ref t \<sigma>") simp
  with Cons show ?case by simp
qed

text \<open>
  \<^verbatim>\<open>add\<close> does change the store: after \<^verbatim>\<open>Trie()\<close>, adding \<^verbatim>\<open>ab\<close> allocates two dictionaries
  and writes to the root.
\<close>

lemma add_ref_changes_store:
  "fresh (add_ref ''ab'' new_trie) = 3 \<and>
   char_keys (heap (add_ref ''ab'' new_trie) 0) = [(CHR ''a'', 1)] \<and>
   add_ref ''ab'' new_trie \<noteq> (new_trie :: char store)"
proof -
  have f: "fresh (add_ref ''ab'' new_trie) = 3"
    by (simp add: add_ref_def new_trie_def)
  moreover have "char_keys (heap (add_ref ''ab'' new_trie) 0) = [(CHR ''a'', 1)]"
    by (simp add: add_ref_def new_trie_def)
  moreover have "fresh (new_trie :: char store) = 1" by (simp add: new_trie_def)
  with f have "add_ref ''ab'' new_trie \<noteq> (new_trie :: char store)" by auto
  ultimately show ?thesis by simp
qed

text \<open>
  The two forms of \<^verbatim>\<open>split\<close> agree: in a store that represents the trie, every loop of
  \<^verbatim>\<open>split\<close> in the store returns what the loop on the node tree returns.
\<close>

lemma represents_terminal: "represents h a n \<Longrightarrow> term_key (h a) = terminal n"
  by (cases n) simp

lemma map_of_related:
  "list_all2 (\<lambda>p q. fst p = fst q \<and> R (snd p) (snd q)) xs ys \<Longrightarrow>
   rel_option R (map_of xs c) (map_of ys c)"
  by (induction rule: list_all2_induct) auto

lemma represents_child:
  "represents h a n \<Longrightarrow>
   rel_option (represents h) (map_of (char_keys (h a)) c) (map_of (children n) c)"
  by (cases n) (simp add: map_of_related)

lemma rel_states_lookup:
  "rel_states h xs ys \<Longrightarrow> rel_option (represents h) (map_of xs k) (map_of ys k)"
  unfolding rel_states_def by (rule map_of_related)

lemma rel_states_update:
  "rel_states h xs ys \<Longrightarrow> represents h a n \<Longrightarrow>
   rel_states h (AList.update k a xs) (AList.update k n ys)"
  unfolding rel_states_def by (induction rule: list_all2_induct) auto

lemma rel_states_delete:
  "rel_states h xs ys \<Longrightarrow> rel_states h (AList.delete k xs) (AList.delete k ys)"
  unfolding rel_states_def by (induction rule: list_all2_induct) auto

lemma lookahead_while_sim:
  "represents (heap \<sigma>) ptr n \<Longrightarrow>
   lookahead_while_ref tx ls ptr idx nc acc \<sigma> = (lookahead_while tx ls n idx nc acc, \<sigma>)"
proof (induction tx ls n idx nc acc arbitrary: ptr rule: lookahead_while.induct)
  case (1 tx ls n idx nc acc)
  show ?case
  proof (cases nc)
    case None
    then show ?thesis
      by (simp add: lookahead_while_ref.simps [of tx ls ptr] lookahead_while.simps [of tx ls n])
  next
    case nc: (Some ch)
    from represents_child [OF "1.prems", of ch]
    have rel: "rel_option (represents (heap \<sigma>)) (map_of (char_keys (heap \<sigma> ptr)) ch)
                 (map_of (children n) ch)" .
    show ?thesis
    proof (cases "map_of (children n) ch")
      case None
      with rel have "map_of (char_keys (heap \<sigma> ptr)) ch = None" by (simp add: option.rel_sel)
      with nc None show ?thesis
        by (simp add: lookahead_while_ref.simps [of tx ls ptr] lookahead_while.simps [of tx ls n])
    next
      case (Some n')
      with rel obtain ptr' where p: "map_of (char_keys (heap \<sigma> ptr)) ch = Some ptr'"
        and r: "represents (heap \<sigma>) ptr' n'"
        by (cases "map_of (char_keys (heap \<sigma> ptr)) ch") auto
      from represents_terminal [OF r] have t: "term_key (heap \<sigma> ptr') = terminal n'" .
      show ?thesis
      proof (cases "idx + 1 < length tx")
        case True
        then have ne: "idx + 1 \<noteq> length tx" by simp
        from "1.IH" [OF nc Some ne True r] nc Some p t True ne show ?thesis
          by (simp add: lookahead_while_ref.simps [of tx ls ptr idx]
                lookahead_while.simps [of tx ls n idx])
      next
        case False
        with nc Some p t show ?thesis
          by (simp add: lookahead_while_ref.simps [of tx ls ptr idx]
                lookahead_while.simps [of tx ls n idx])
      qed
    qed
  qed
qed

lemma lookahead_sim:
  "rel_states (heap \<sigma>) xs ys \<Longrightarrow>
   lookahead_ref tx cur xs acc \<sigma> = (lookahead tx cur ys acc, \<sigma>)"
  unfolding rel_states_def
proof (induction arbitrary: acc rule: list_all2_induct)
  case Nil
  show ?case by simp
next
  case (Cons x xs y ys)
  obtain ls lp where x: "x = (ls, lp)" by (cases x)
  obtain ls' n where y: "y = (ls', n)" by (cases y)
  obtain start en sk where acc: "acc = (start, en, sk)" by (cases acc)
  from Cons.hyps(1) x y have eq: "ls' = ls" and r: "represents (heap \<sigma>) lp n" by simp_all
  from represents_terminal [OF r] have t: "term_key (heap \<sigma> lp) = terminal n" .
  show ?case
  proof (cases "ls > start")
    case True
    with x y acc eq show ?thesis by simp
  next
    case False
    let ?idx = "if ls < start then cur + 1 else cur"
    let ?nc = "if ?idx < length tx then Some (tx ! ?idx) else None"
    let ?acc = "if terminal n then (ls, Some ?idx, ?idx) else (start, Some ?idx, sk)"
    note w = lookahead_while_sim [OF r, of tx ls ?idx ?nc ?acc]
    show ?thesis
    proof (cases "lookahead_while tx ls n ?idx ?nc ?acc")
      case (Inl e)
      with w x y acc eq t False show ?thesis by (simp add: Let_def)
    next
      case (Inr acc')
      with w x y acc eq t False Cons.IH [of acc'] show ?thesis by (simp add: Let_def)
    qed
  qed
qed


lemma match_states_sim:
  "rel_states (heap \<sigma>) xs ys \<Longrightarrow> rel_locals (heap \<sigma>) l s \<Longrightarrow>
   \<exists>r. match_states_ref tx cur ch xs l tr \<sigma> = (r, \<sigma>) \<and>
       rel_sum (=) (\<lambda>(l', tr', b) (s', tr'', b'). rel_locals (heap \<sigma>) l' s' \<and> tr' = tr'' \<and> b = b')
         r (match_states tx cur ch ys s tr)"
  unfolding rel_states_def
proof (induction arbitrary: l s tr rule: list_all2_induct)
  case Nil
  then show ?case by simp
next
  case (Cons x xs y ys)
  obtain start tpr where x: "x = (start, tpr)" by (cases x)
  obtain start' tp where y: "y = (start', tp)" by (cases y)
  from Cons.hyps(1) x y have eq: "start' = start" and r: "represents (heap \<sigma>) tpr tp"
    by simp_all
  from represents_terminal [OF r] have t: "term_key (heap \<sigma> tpr) = terminal tp" .
  from Cons.prems have rl: "rel_states (heap \<sigma>) (rstates l) (states s)"
    and fl: "roffsets l = offsets s" "rskip l = skip s" "rend l = endv s"
    by (simp_all add: rel_locals_def)
  show ?case
  proof (cases "terminal tp")
    case True
    note la = lookahead_sim [OF rl, of tx cur "(start, endv s, skip s)"]
    show ?thesis
    proof (cases "lookahead tx cur (states s) (start, endv s, skip s)")
      case (Inl e)
      with la x y eq t True fl show ?thesis by simp
    next
      case (Inr acc)
      obtain st en sk where acc: "acc = (st, en, sk)" by (cases acc)
      show ?thesis
      proof (cases en)
        case None
        with Inr acc la x y eq t True fl show ?thesis by simp
      next
        case (Some e)
        with Inr acc la x y eq t True fl rl show ?thesis by (simp add: rel_locals_def)
      qed
    qed
  next
    case nt: False
    from represents_child [OF r, of ch]
    have rel: "rel_option (represents (heap \<sigma>)) (map_of (char_keys (heap \<sigma> tpr)) ch)
                 (map_of (children tp) ch)" .
    show ?thesis
    proof (cases "map_of (children tp) ch")
      case None
      with rel have n: "map_of (char_keys (heap \<sigma> tpr)) ch = None" by (simp add: option.rel_sel)
      from Cons.IH [OF Cons.prems, of "List.insert start tr"] x y eq t nt None n
      show ?thesis by simp
    next
      case (Some tp')
      with rel obtain tpr' where p: "map_of (char_keys (heap \<sigma> tpr)) ch = Some tpr'"
        and r': "represents (heap \<sigma>) tpr' tp'"
        by (cases "map_of (char_keys (heap \<sigma> tpr)) ch") auto
      have "rel_locals (heap \<sigma>) (l\<lparr>rstates := AList.update start tpr' (rstates l)\<rparr>)
              (s\<lparr>states := AList.update start tp' (states s)\<rparr>)"
        using rel_states_update [OF rl r'] fl by (simp add: rel_locals_def)
      from Cons.IH [OF this, of tr] x y eq t nt Some p show ?thesis by simp
    qed
  qed
qed

lemma del_states_sim:
  "rel_states h xs ys \<Longrightarrow> rel_sum (=) (rel_states h) (del_states tr xs) (del_states tr ys)"
proof (induction tr arbitrary: xs ys)
  case Nil
  then show ?case by simp
next
  case (Cons k ks)
  from rel_states_lookup [OF Cons.prems, of k]
  have "map_of xs k = None \<longleftrightarrow> map_of ys k = None" by (simp add: option.rel_sel)
  with Cons.IH [OF rel_states_delete [OF Cons.prems, of k]] show ?case by simp
qed

lemma step_sim:
  assumes "rel_locals (heap \<sigma>) l s" "represents (heap \<sigma>) (self_data \<sigma>) root"
  shows "\<exists>r. step_ref tx cur ch l \<sigma> = (r, \<sigma>) \<and>
             rel_sum (=) (rel_locals (heap \<sigma>)) r (step root tx cur ch s)"
proof (cases "skip s \<noteq> 0 \<and> cur < skip s")
  case True
  with assms(1) show ?thesis by (simp add: step_ref_def step_def rel_locals_def)
next
  case False
  from assms(1) have rl: "rel_states (heap \<sigma>) (rstates l) (states s)"
    and sk: "rskip l = skip s" by (simp_all add: rel_locals_def)
  from False sk have F: "\<not> (rskip l \<noteq> 0 \<and> cur < rskip l)" by simp
  from match_states_sim [OF rl assms(1), of tx cur ch "[]"]
  obtain r1 where m: "match_states_ref tx cur ch (rstates l) l [] \<sigma> = (r1, \<sigma>)"
    and rel: "rel_sum (=) (\<lambda>(l', tr', b) (s', tr'', b'). rel_locals (heap \<sigma>) l' s' \<and> tr' = tr'' \<and> b = b')
         r1 (match_states tx cur ch (states s) s [])"
    by blast
  show ?thesis
  proof (cases "match_states tx cur ch (states s) s []")
    case (Inl e)
    with rel have "r1 = Inl e" by (cases r1) simp_all
    with m Inl show ?thesis
      unfolding step_ref_def step_def if_not_P [OF F] if_not_P [OF False] by simp
  next
    case (Inr res)
    obtain s1 tr reset where res: "res = (s1, tr, reset)" by (cases res)
    with rel Inr obtain l1 where r1: "r1 = Inr (l1, tr, reset)"
      and rl1: "rel_locals (heap \<sigma>) l1 s1"
      by (cases r1) auto
    from rl1 have rs1: "rel_states (heap \<sigma>) (rstates l1) (states s1)"
      and sk1: "rskip l1 = skip s1" and fl1: "roffsets l1 = offsets s1" "rend l1 = endv s1"
      by (simp_all add: rel_locals_def)
    have d: "rel_sum (=) (rel_states (heap \<sigma>))
               (if reset then Inr [] else del_states tr (rstates l1))
               (if reset then Inr [] else del_states tr (states s1))"
      using del_states_sim [OF rs1, of tr] by (simp add: rel_states_def)
    show ?thesis
    proof (cases "if reset then Inr [] else del_states tr (states s1)")
      case (Inl e)
      with d have "(if reset then Inr [] else del_states tr (rstates l1)) = Inl e"
        by (cases "if reset then Inr [] else del_states tr (rstates l1)") simp_all
      with m r1 Inr res Inl show ?thesis
        unfolding step_ref_def step_def if_not_P [OF F] if_not_P [OF False] by simp
    next
      case sts: (Inr sts)
      with d obtain stsr where dr: "(if reset then Inr [] else del_states tr (rstates l1)) = Inr stsr"
        and rsts: "rel_states (heap \<sigma>) stsr sts"
        by (cases "if reset then Inr [] else del_states tr (rstates l1)") simp_all
      from represents_child [OF assms(2), of ch]
      have relc: "rel_option (represents (heap \<sigma>))
                   (if cur \<ge> rskip l1 then map_of (char_keys (heap \<sigma> (self_data \<sigma>))) ch else None)
                   (if cur \<ge> skip s1 then map_of (children root) ch else None)"
        using sk1 by simp
      show ?thesis
      proof (cases "if cur \<ge> skip s1 then map_of (children root) ch else None")
        case None
        with relc have "(if cur \<ge> rskip l1 then map_of (char_keys (heap \<sigma> (self_data \<sigma>))) ch
                          else None) = None"
          by (simp add: option.rel_sel)
        with m r1 Inr res sts dr None rsts sk1 fl1 show ?thesis
          unfolding step_ref_def step_def if_not_P [OF F] if_not_P [OF False]
          by (simp add: rel_locals_def)
      next
        case (Some v)
        with relc obtain a where a: "(if cur \<ge> rskip l1
            then map_of (char_keys (heap \<sigma> (self_data \<sigma>))) ch else None) = Some a"
          and ra: "represents (heap \<sigma>) a v"
          by (cases "if cur \<ge> rskip l1 then map_of (char_keys (heap \<sigma> (self_data \<sigma>))) ch
                     else None") simp_all
        from rel_states_update [OF rsts ra, of cur]
        have "rel_states (heap \<sigma>) (AList.update cur a stsr) (AList.update cur v sts)" .
        with m r1 Inr res sts dr Some a sk1 fl1 show ?thesis
          unfolding step_ref_def step_def if_not_P [OF F] if_not_P [OF False]
          by (simp add: rel_locals_def)
      qed
    qed
  qed
qed

lemma scan_text_sim:
  assumes "represents (heap \<sigma>) (self_data \<sigma>) root"
  shows "rel_locals (heap \<sigma>) l s \<Longrightarrow>
         \<exists>r. scan_text_ref tx cur rest l \<sigma> = (r, \<sigma>) \<and>
             rel_sum (=) (rel_locals (heap \<sigma>)) r (scan_text root tx cur rest s)"
proof (induction rest arbitrary: cur l s)
  case Nil
  then show ?case by simp
next
  case (Cons ch rest)
  from step_sim [OF Cons.prems assms, of tx cur ch]
  obtain r1 where st: "step_ref tx cur ch l \<sigma> = (r1, \<sigma>)"
    and rel: "rel_sum (=) (rel_locals (heap \<sigma>)) r1 (step root tx cur ch s)" by blast
  show ?case
  proof (cases "step root tx cur ch s")
    case (Inl e)
    with rel have "r1 = Inl e" by (cases r1) simp_all
    with st Inl show ?thesis by simp
  next
    case (Inr s1)
    with rel obtain l1 where r1: "r1 = Inr l1" and rl1: "rel_locals (heap \<sigma>) l1 s1"
      by (cases r1) simp_all
    from Cons.IH [OF rl1, of "cur + 1"] st r1 Inr show ?thesis by simp
  qed
qed

lemma final_cut_sim:
  "rel_states (heap \<sigma>) xs ys \<Longrightarrow> final_cut_ref n xs offs \<sigma> = (final_cut n ys offs, \<sigma>)"
  unfolding rel_states_def
proof (induction rule: list_all2_induct)
  case Nil
  show ?case by simp
next
  case (Cons x xs y ys)
  obtain k a where x: "x = (k, a)" by (cases x)
  obtain k' m where y: "y = (k', m)" by (cases y)
  from Cons.hyps(1) x y have "k' = k" "represents (heap \<sigma>) a m" by simp_all
  with represents_terminal [of "heap \<sigma>" a m] Cons.IH x y show ?case by simp
qed

lemma split_ref_refines:
  assumes "represents (heap \<sigma>) (self_data \<sigma>) (data T)"
  shows "split_ref tx \<sigma> = (split T tx, \<sigma>)"
proof -
  let ?l0 = "\<lparr>rstates = [], roffsets = [0], rskip = 0, rend = None\<rparr>"
  let ?s0 = "\<lparr>states = [], offsets = [0], skip = 0, endv = None\<rparr> :: 'a scan"
  have "rel_locals (heap \<sigma>) ?l0 ?s0" by (simp add: rel_locals_def rel_states_def)
  from scan_text_sim [OF assms this, of tx 0 tx]
  obtain r where sc: "scan_text_ref tx 0 tx ?l0 \<sigma> = (r, \<sigma>)"
    and rel: "rel_sum (=) (rel_locals (heap \<sigma>)) r (scan_text (data T) tx 0 tx ?s0)" by blast
  show ?thesis
  proof (cases "scan_text (data T) tx 0 tx ?s0")
    case (Inl e)
    with rel have "r = Inl e" by (cases r) simp_all
    with sc Inl show ?thesis by (simp add: split_ref_def split_def)
  next
    case (Inr s)
    with rel obtain l where r: "r = Inr l" and rl: "rel_locals (heap \<sigma>) l s"
      by (cases r) simp_all
    from rl have "rel_states (heap \<sigma>) (rstates l) (states s)" "roffsets l = offsets s"
      by (simp_all add: rel_locals_def)
    with final_cut_sim [of \<sigma> "rstates l" "states s" "length tx" "offsets s"]
    have "final_cut_ref (length tx) (rstates l) (roffsets l) \<sigma>
            = (final_cut (length tx) (states s) (offsets s), \<sigma>)" by simp
    with sc r Inr show ?thesis by (simp add: split_ref_def split_def)
  qed
qed

lemma represents_example:
  "represents (heap (add_ref ''ab'' (add_ref ''a'' new_trie)))
     (self_data (add_ref ''ab'' (add_ref ''a'' new_trie))) (data (Trie_init [''a'', ''ab'']))"
  by (simp add: add_ref_def new_trie_def Trie_init_def update_def add_def)

text \<open>
  Claim C9. For every store and every text, the store after \<^verbatim>\<open>split(text)\<close> is the store
  before the call: the dictionaries of the node tree, \<^verbatim>\<open>self.data\<close> and the token set are
  what they were. After any sequence of calls the store is still the same, and each call
  returned what it returns in the initial store, whatever was split before; in a store
  that represents a trie that is what \<^verbatim>\<open>split\<close> returns on this trie.
\<close>

theorem split_leaves_trie:
  "snd (split_ref text \<sigma>) = \<sigma> \<and>
   heap (snd (split_ref text \<sigma>)) = heap \<sigma> \<and>
   self_data (snd (split_ref text \<sigma>)) = self_data \<sigma> \<and>
   self_tokens (snd (split_ref text \<sigma>)) = self_tokens \<sigma> \<and>
   split_calls_ref texts \<sigma> = (map (\<lambda>t. fst (split_ref t \<sigma>)) texts, \<sigma>) \<and>
   (represents (heap \<sigma>) (self_data \<sigma>) (data T) \<longrightarrow>
      split_calls_ref texts \<sigma> = (map (split T) texts, \<sigma>))"
proof -
  have "map (\<lambda>t. fst (split_ref t \<sigma>)) texts = map (split T) texts"
    if "represents (heap \<sigma>) (self_data \<sigma>) (data T)"
    using split_ref_refines [OF that] by simp
  then show ?thesis by (simp add: split_ref_frame split_calls_ref_frame)
qed

theorem split_leaves_trie_witness:
  "represents (heap (add_ref ''ab'' (add_ref ''a'' new_trie)))
     (self_data (add_ref ''ab'' (add_ref ''a'' new_trie))) (data (Trie_init [''a'', ''ab''])) \<and>
   split_calls_ref [''xaby'', ''a''] (add_ref ''ab'' (add_ref ''a'' new_trie))
     = ([Inr [''x'', ''ab'', ''y''], Inr [''a'']], add_ref ''ab'' (add_ref ''a'' new_trie))"
proof -
  have s1: "split (Trie_init [''a'', ''ab'']) ''xaby'' = Inr [''x'', ''ab'', ''y'']"
    by code_simp
  have s2: "split (Trie_init [''a'', ''ab'']) ''a'' = Inr [''a'']"
    by code_simp
  note th = split_leaves_trie [where \<sigma> = "add_ref ''ab'' (add_ref ''a'' new_trie)"
      and texts = "[''xaby'', ''a'']" and T = "Trie_init [''a'', ''ab'']"]
  note imp = th [THEN conjunct2, THEN conjunct2, THEN conjunct2, THEN conjunct2, THEN conjunct2]
  from imp [rule_format, OF represents_example]
  have "split_calls_ref [''xaby'', ''a''] (add_ref ''ab'' (add_ref ''a'' new_trie))
     = ([Inr [''x'', ''ab'', ''y''], Inr [''a'']], add_ref ''ab'' (add_ref ''a'' new_trie))"
    by (simp only: list.map s1 s2)
  with represents_example show ?thesis by (rule conjI)
qed

section \<open>Extensions of a prefix\<close>

lemma set_update_subset: "set (AList.update k v al) \<subseteq> insert (k, v) (set al)"
  by (induction al) auto

lemma wf_add_chars: "wf_node n \<Longrightarrow> wf_node (add_chars w n)"
proof (induction w arbitrary: n)
  case Nil
  then show ?case by (cases n) simp
next
  case (Cons c w)
  obtain t cs where n: "n = Node t cs" by (cases n)
  let ?n0 = "case map_of cs c of None \<Rightarrow> Node False [] | Some m \<Rightarrow> m"
  from Cons.prems n have d: "distinct (map fst cs)" and ch: "\<forall>p\<in>set cs. wf_node (snd p)"
    by (simp_all add: list_all_iff)
  have "wf_node ?n0"
  proof (cases "map_of cs c")
    case None
    then show ?thesis by simp
  next
    case (Some m)
    then have "(c, m) \<in> set cs" by (rule map_of_SomeD)
    with ch Some show ?thesis by auto
  qed
  then have new: "wf_node (add_chars w ?n0)" by (rule Cons.IH)
  have "\<forall>p\<in>set (AList.update c (add_chars w ?n0) cs). wf_node (snd p)"
    using set_update_subset [of c "add_chars w ?n0" cs] ch new by auto
  with d show ?case
    by (simp add: n AList.distinct_update list_all_iff)
qed

lemma wf_add: "wf_node (data T) \<Longrightarrow> wf_node (data (add w T))"
  by (simp add: add_def wf_add_chars)

lemma wf_update: "wf_node (data T) \<Longrightarrow> wf_node (data (update ws T))"
  unfolding update_def by (induction ws arbitrary: T) (simp_all add: wf_add)

lemma wf_reachable: "reachable T \<Longrightarrow> wf_node (data T)"
proof (induction rule: reachable.induct)
  case (init ws)
  show ?case unfolding Trie_init_def by (rule wf_update) simp
next
  case (add T w)
  then show ?case by (simp add: wf_add)
qed

lemma collect_tokens_set:
  "wf_node n \<Longrightarrow> set (collect_tokens n) = {s. ends_terminal n s}"
proof (induction n rule: collect_tokens.induct)
  case (1 t cs)
  from "1.prems" have d: "distinct (map fst cs)" and ch: "\<forall>p\<in>set cs. wf_node (snd p)"
    by (simp_all add: list_all_iff)
  have IH: "\<And>c m. (c, m) \<in> set cs \<Longrightarrow> set (collect_tokens m) = {s. ends_terminal m s}"
    using "1.IH" ch by force
  show ?case
  proof (intro set_eqI iffI)
    fix s assume "s \<in> set (collect_tokens (Node t cs))"
    then consider "t" "s = []"
      | c m s' where "(c, m) \<in> set cs" "s = c # s'" "s' \<in> set (collect_tokens m)"
      by (auto split: if_splits)
    then show "s \<in> {s. ends_terminal (Node t cs) s}"
    proof cases
      case 1
      then show ?thesis by simp
    next
      case 2
      from 2(1) d have "map_of cs c = Some m" by simp
      with 2 IH [OF 2(1)] show ?thesis by simp
    qed
  next
    fix s assume a: "s \<in> {s. ends_terminal (Node t cs) s}"
    show "s \<in> set (collect_tokens (Node t cs))"
    proof (cases s)
      case Nil
      with a show ?thesis by simp
    next
      case (Cons c s')
      with a obtain m where m: "map_of cs c = Some m" "ends_terminal m s'"
        by (auto split: option.splits)
      from m(1) have in_cs: "(c, m) \<in> set cs" by (rule map_of_SomeD)
      with IH m(2) have "s' \<in> set (collect_tokens m)" by simp
      with in_cs Cons show ?thesis by force
    qed
  qed
qed

lemma get_node_from_walk: "walk n p = Some m \<Longrightarrow> get_node_from n p = m"
  by (induction p arbitrary: n) (auto split: option.splits)

lemma ends_terminal_append:
  "ends_terminal n (p @ s) = (case walk n p of None \<Rightarrow> False | Some m \<Rightarrow> ends_terminal m s)"
  by (induction p arbitrary: n) (auto split: option.splits)

lemma wf_walk: "wf_node n \<Longrightarrow> walk n p = Some m \<Longrightarrow> wf_node m"
proof (induction p arbitrary: n)
  case Nil
  then show ?case by simp
next
  case (Cons c p)
  obtain t cs where n: "n = Node t cs" by (cases n)
  from Cons.prems(2) n obtain k where k: "map_of cs c = Some k" "walk k p = Some m"
    by (auto split: option.splits)
  from k(1) have "(c, k) \<in> set cs" by (rule map_of_SomeD)
  with Cons.prems(1) n have "wf_node k" by (auto simp: list_all_iff)
  from Cons.IH [OF this k(2)] show ?case .
qed

lemma update_no_tokens: "tokens (update ws T) = {} \<Longrightarrow> update ws T = T"
  unfolding update_def
proof (induction ws arbitrary: T)
  case Nil
  then show ?case by simp
next
  case (Cons w ws)
  from Cons.prems have e: "tokens (fold add ws (add w T)) = {}" by simp
  from Cons.IH [OF e] have eq: "fold add ws (add w T) = add w T" .
  with e have "tokens (add w T) = {}" by simp
  then have "add w T = T" by (auto simp: add_def split: if_splits)
  with eq show ?case by simp
qed

lemma reachable_no_tokens: "reachable T \<Longrightarrow> tokens T = {} \<Longrightarrow> data T = Node False []"
proof (induction rule: reachable.induct)
  case (init ws)
  from update_no_tokens [of ws "\<lparr>data = Node False [], tokens = {}\<rparr>"] init
  show ?case by (simp add: Trie_init_def)
next
  case (add T w)
  from add.prems have "add w T = T" by (auto simp: add_def split: if_splits)
  with add show ?case by simp
qed

lemma extensions_walk:
  assumes "reachable T" "walk (data T) p = Some m"
  shows "set (extensions T p) = {w \<in> tokens T. prefix p w}"
proof -
  from wf_reachable [OF assms(1)] assms(2) have "wf_node m" by (rule wf_walk)
  then have c: "set (collect_tokens m) = {s. ends_terminal m s}" by (rule collect_tokens_set)
  have g: "get_node T p = m" using assms(2) by (simp add: get_node_def get_node_from_walk)
  have "set (extensions T p) = {p @ s |s. ends_terminal m s}"
    by (auto simp: extensions_def g c)
  also have "\<dots> = {w. prefix p w \<and> ends_terminal (data T) w}"
    using assms(2) by (auto simp: prefix_def ends_terminal_append)
  also have "\<dots> = {w \<in> tokens T. prefix p w}"
    using agree_reachable [OF assms(1)] by auto
  finally show ?thesis .
qed

text \<open>
  Claim C3, as the code has it. When the prefix departs from the trie partway,
  \<^verbatim>\<open>_get_node\<close> stops at the last node reached and \<^verbatim>\<open>extensions\<close> puts the whole prefix in
  front of the suffixes found there: the strings returned are then no inserted words.
\<close>

theorem extensions_departing_prefix:
  "''apxple'' \<in> set (extensions (Trie_init [''apple'']) ''apx'') \<and>
   ''apxple'' \<notin> tokens (Trie_init [''apple''])"
  by (simp add: extensions_def get_node_def Trie_init_def update_def add_def)

text \<open>
  Claim C3, amended. For every vocabulary inserted and every prefix that some inserted
  word starts with (or any prefix when no word was inserted), \<^verbatim>\<open>extensions(prefix)\<close>
  returns, as a set, exactly the inserted words that start with the prefix.
\<close>

theorem extensions_of_present_prefix:
  assumes "reachable T" "tokens T = {} \<or> (\<exists>w\<in>tokens T. prefix p w)"
  shows "set (extensions T p) = {w \<in> tokens T. prefix p w}"
  using assms(2)
proof
  assume e: "tokens T = {}"
  with reachable_no_tokens [OF assms(1)] have "data T = Node False []" by simp
  then have "extensions T p = []"
    by (cases p) (simp_all add: extensions_def get_node_def)
  with e show ?thesis by simp
next
  assume "\<exists>w\<in>tokens T. prefix p w"
  then obtain w s where w: "w \<in> tokens T" "w = p @ s" by (auto simp: prefix_def)
  with agree_reachable [OF assms(1)] have "ends_terminal (data T) (p @ s)" by simp
  then obtain m where "walk (data T) p = Some m"
    by (auto simp: ends_terminal_append split: option.splits)
  with assms(1) show ?thesis by (rule extensions_walk)
qed

theorem extensions_of_present_prefix_witness:
  "reachable (Trie_init [''apple'', ''app'', ''application'', ''bat'']) \<and>
   (\<exists>w\<in>tokens (Trie_init [''apple'', ''app'', ''application'', ''bat'']). prefix ''app'' w) \<and>
   set (extensions (Trie_init [''apple'', ''app'', ''application'', ''bat'']) ''app'')
     = {''app'', ''apple'', ''application''}"
proof -
  let ?T = "Trie_init [''apple'', ''app'', ''application'', ''bat'']"
  have r: "reachable ?T" by (rule reachable.init)
  have t: "tokens ?T = {''apple'', ''app'', ''application'', ''bat''}"
    by (auto simp: Trie_init_def update_def add_def)
  have h: "\<exists>w\<in>tokens ?T. prefix ''app'' w" unfolding t by simp
  have "{w \<in> tokens ?T. prefix ''app'' w} = {''app'', ''apple'', ''application''}"
    unfolding t by auto
  with extensions_of_present_prefix [OF r disjI2 [OF h]] r h show ?thesis by simp
qed

section \<open>An occurrence that is isolated\<close>

lemma longest_match_Nil:
  assumes "longest_match n rest []"
  shows "terminal n" and "\<And>s. s \<noteq> [] \<Longrightarrow> prefix s rest \<Longrightarrow> \<not> ends_terminal n s"
  using assms by (auto simp: longest_match_def)

lemma longest_match_Cons:
  assumes "longest_match n rest (c # u)"
  obtains rest' n' where "rest = c # rest'" "map_of (children n) c = Some n'"
    "longest_match n' rest' u"
proof -
  from assms have p: "prefix (c # u) rest" and e: "ends_terminal n (c # u)"
    and l: "\<And>s. prefix s rest \<Longrightarrow> length (c # u) < length s \<Longrightarrow> \<not> ends_terminal n s"
    by (auto simp: longest_match_def)
  from p obtain rest' where r: "rest = c # rest'" "prefix u rest'"
    by (cases rest) auto
  from e obtain n' where n': "map_of (children n) c = Some n'" "ends_terminal n' u"
    by (auto split: option.splits)
  have "\<not> ends_terminal n' s" if "prefix s rest'" "length u < length s" for s
  proof -
    from that r have "prefix (c # s) rest" "length (c # u) < length (c # s)" by simp_all
    from l [OF this] n'(1) show ?thesis by simp
  qed
  with r(2) n'(2) have "longest_match n' rest' u" by (simp add: longest_match_def)
  with r(1) n'(1) show thesis by (rule that)
qed

lemma lookahead_while_none:
  assumes "\<And>s. s \<noteq> [] \<Longrightarrow> prefix s (drop idx tx) \<Longrightarrow> \<not> ends_terminal ptr s"
    and "nc = (if idx < length tx then Some (tx ! idx) else None)"
  shows "lookahead_while tx ls ptr idx nc acc = Inr acc"
  using assms
proof (induction tx ls ptr idx nc acc rule: lookahead_while.induct)
  case (1 tx ls ptr idx nc acc)
  show ?case
  proof (cases "idx < length tx")
    case False
    with "1.prems"(2) show ?thesis by (subst lookahead_while.simps) simp
  next
    case lt: True
    with "1.prems"(2) have nc: "nc = Some (tx ! idx)" by simp
    have dr: "drop idx tx = tx ! idx # drop (idx + 1) tx"
      using lt by (simp add: Cons_nth_drop_Suc)
    show ?thesis
    proof (cases "map_of (children ptr) (tx ! idx)")
      case None
      with nc show ?thesis by (subst lookahead_while.simps) simp
    next
      case (Some ptr')
      have "\<not> ends_terminal ptr [tx ! idx]"
        by (rule "1.prems"(1)) (simp_all add: dr)
      with Some have nt: "\<not> terminal ptr'" by simp
      show ?thesis
      proof (cases "idx + 1 = length tx")
        case True
        with nc Some nt show ?thesis by (subst lookahead_while.simps) simp
      next
        case False
        with lt have lt': "idx + 1 < length tx" by simp
        have below: "\<not> ends_terminal ptr' s" if "s \<noteq> []" "prefix s (drop (idx + 1) tx)" for s
        proof -
          from that(2) have "prefix (tx ! idx # s) (drop idx tx)" by (simp add: dr)
          from "1.prems"(1) [OF _ this] Some show ?thesis by simp
        qed
        have "lookahead_while tx ls ptr' (idx + 1) (Some (tx ! (idx + 1)))
                (if terminal ptr' then (ls, Some (idx + 1), idx + 1) else acc)
              = Inr (if terminal ptr' then (ls, Some (idx + 1), idx + 1) else acc)"
          using "1.IH" [OF nc Some False lt' below] lt' by simp
        with nc Some nt False lt' show ?thesis by (subst lookahead_while.simps) simp
      qed
    qed
  qed
qed

lemma lookahead_while_longest:
  assumes "longest_match ptr (drop idx tx) u"
    and "nc = (if idx < length tx then Some (tx ! idx) else None)"
  shows "lookahead_while tx ls ptr idx nc acc
           = Inr (if u = [] then acc else (ls, Some (idx + length u), idx + length u))"
  using assms
proof (induction u arbitrary: ptr idx nc acc)
  case Nil
  from longest_match_Nil(2) [OF Nil(1)] Nil(2) show ?case
    by (simp add: lookahead_while_none)
next
  case (Cons c u)
  from Cons.prems(1) obtain rest' n' where r: "drop idx tx = c # rest'"
    and ch: "map_of (children ptr) c = Some n'" and lm: "longest_match n' rest' u"
    by (rule longest_match_Cons)
  from r have lt: "idx < length tx" by (cases "idx < length tx") simp_all
  with r have c: "tx ! idx = c" and rest': "rest' = drop (idx + 1) tx"
    by (simp_all add: Cons_nth_drop_Suc [symmetric])
  from lt c Cons.prems(2) have nc: "nc = Some c" by simp
  let ?acc = "if terminal n' then (ls, Some (idx + 1), idx + 1) else acc"
  show ?case
  proof (cases "idx + 1 = length tx")
    case True
    with rest' lm have "u = []" by (simp add: longest_match_def)
    with lm have "terminal n'" by (simp add: longest_match_def)
    with nc ch True \<open>u = []\<close> show ?thesis by (subst lookahead_while.simps) simp
  next
    case False
    with lt have lt': "idx + 1 < length tx" by simp
    from lm rest' have lm': "longest_match n' (drop (idx + 1) tx) u" by simp
    have "lookahead_while tx ls n' (idx + 1) (Some (tx ! (idx + 1))) ?acc
            = Inr (if u = [] then ?acc else (ls, Some (idx + 1 + length u), idx + 1 + length u))"
      using Cons.IH [OF lm', of "Some (tx ! (idx + 1))" ?acc] lt' by simp
    moreover have "u = [] \<Longrightarrow> terminal n'"
      using lm by (simp add: longest_match_def)
    ultimately have "lookahead_while tx ls n' (idx + 1) (Some (tx ! (idx + 1))) ?acc
            = Inr (ls, Some (idx + length (c # u)), idx + length (c # u))"
      by (cases "u = []") simp_all
    with nc ch False lt' show ?thesis by (subst lookahead_while.simps) simp
  qed
qed

lemma lookahead_first:
  assumes "\<forall>k\<in>fst ` set later. i0 < k" "i0 \<le> start"
    "idx = (if i0 < start then cur + 1 else cur)"
    "longest_match n (drop idx tx) u"
  shows "lookahead tx cur ((i0, n) # later) (start, en, sk)
           = Inr (i0, Some (idx + length u), idx + length u)"
proof -
  let ?nc = "if idx < length tx then Some (tx ! idx) else None"
  let ?acc = "if terminal n then (i0, Some idx, idx) else (start, Some idx, sk)"
  have w: "lookahead_while tx i0 n idx ?nc ?acc
          = Inr (if u = [] then ?acc else (i0, Some (idx + length u), idx + length u))"
    using assms(4) by (rule lookahead_while_longest) simp
  have "u = [] \<Longrightarrow> terminal n" using assms(4) by (simp add: longest_match_def)
  with w have w': "lookahead_while tx i0 n idx ?nc ?acc
          = Inr (i0, Some (idx + length u), idx + length u)"
    by (cases "u = []") simp_all
  have "lookahead tx cur ((i0, n) # later) (start, en, sk)
          = lookahead tx cur later (i0, Some (idx + length u), idx + length u)"
    using assms(2,3) w' by (auto split: if_splits)
  also have "\<dots> = Inr (i0, Some (idx + length u), idx + length u)"
    using assms(1) by (rule lookahead_later)
  finally show ?thesis .
qed



lemma match_states_appends:
  "match_states tx cur ch items s tr = Inr (s', tr', r) \<Longrightarrow> \<exists>m. offsets s' = offsets s @ m"
proof (induction items arbitrary: s tr)
  case Nil
  then show ?case by simp
next
  case (Cons item items)
  obtain start tp where item: "item = (start, tp)" by (cases item)
  show ?case
  proof (cases "terminal tp")
    case True
    with Cons.prems item show ?thesis
      by (auto split: sum.splits prod.splits option.splits)
  next
    case nt: False
    show ?thesis
    proof (cases "map_of (children tp) ch")
      case None
      with Cons.prems nt item
      have "match_states tx cur ch items s (List.insert start tr) = Inr (s', tr', r)" by simp
      from Cons.IH [OF this] show ?thesis .
    next
      case (Some tp')
      with Cons.prems nt item
      have "match_states tx cur ch items (s\<lparr>states := AList.update start tp' (states s)\<rparr>) tr
              = Inr (s', tr', r)" by simp
      from Cons.IH [OF this] show ?thesis by simp
    qed
  qed
qed

lemma step_appends:
  assumes "step root tx cur ch s = Inr s'"
  shows "\<exists>m. offsets s' = offsets s @ m"
proof (cases "skip s \<noteq> 0 \<and> cur < skip s")
  case True
  with assms show ?thesis by (simp add: step_def)
next
  case False
  from assms obtain s1 tr reset
    where m: "match_states tx cur ch (states s) s [] = Inr (s1, tr, reset)"
      and o: "offsets s' = offsets s1"
    unfolding step_def if_not_P [OF False]
    by (auto split: sum.splits option.splits)
  from match_states_appends [OF m] o show ?thesis by simp
qed

lemma scan_text_appends:
  "scan_text root tx cur rest s = Inr s' \<Longrightarrow> \<exists>m. offsets s' = offsets s @ m"
proof (induction rest arbitrary: cur s)
  case Nil
  then show ?case by simp
next
  case (Cons ch rest)
  from Cons.prems obtain s1 where s1: "step root tx cur ch s = Inr s1"
    "scan_text root tx (cur + 1) rest s1 = Inr s'"
    by (auto split: sum.splits)
  from step_appends [OF s1(1)] obtain m1 where "offsets s1 = offsets s @ m1" ..
  moreover from Cons.IH [OF s1(2)] obtain m2 where "offsets s' = offsets s1 @ m2" ..
  ultimately show ?case by simp
qed

lemma final_cut_appends: "\<exists>m. final_cut n sts offs = offs @ m"
proof (induction sts)
  case Nil
  show ?case by simp
next
  case (Cons item sts)
  then show ?case by (cases item) simp
qed

lemma longest_from_vocab:
  assumes "ends_terminal root (c # w')"
    and "\<And>v. ends_terminal root v \<Longrightarrow> prefix (c # w') v \<Longrightarrow> prefix v ((c # w') @ post)
           \<Longrightarrow> v = c # w'"
    and "map_of (children root) c = Some n1"
  shows "longest_match n1 (w' @ post) w'"
proof -
  from assms(1,3) have e: "ends_terminal n1 w'" by simp
  have "\<not> ends_terminal n1 s" if p: "prefix s (w' @ post)" and l: "length w' < length s" for s
  proof
    assume "ends_terminal n1 s"
    with assms(3) have v: "ends_terminal root (c # s)" by simp
    have "prefix w' s"
      using p l by (intro prefix_length_prefix [of w' "w' @ post" s]) simp_all
    then have "prefix (c # w') (c # s)" by simp
    moreover from p have "prefix (c # s) ((c # w') @ post)" by simp
    ultimately have "c # s = c # w'" using v assms(2) by blast
    with l show False by simp
  qed
  with e show ?thesis by (simp add: longest_match_def)
qed

lemma cut_loop_appends: "cut_loop tx es st toks = Inr r \<Longrightarrow> \<exists>r'. r = toks @ r'"
proof (induction es arbitrary: st toks)
  case Nil
  then show ?case by simp
next
  case (Cons e es)
  show ?case
  proof (cases "st = e")
    case True
    with Cons.prems have "cut_loop tx es st toks = Inr r" by simp
    from Cons.IH [OF this] show ?thesis .
  next
    case False
    with Cons.prems have "cut_loop tx es e (toks @ [take (e - st) (drop st tx)]) = Inr r"
      by (cases "e < st") simp_all
    from Cons.IH [OF this] show ?thesis by auto
  qed
qed

text \<open>
  Claim C6, as the code has it. The scan is greedy: a match that completes discards every
  other partial match. With the words \<^verbatim>\<open>ab\<close> and \<^verbatim>\<open>bc\<close> inserted, the text \<^verbatim>\<open>abc\<close> holds an
  exact occurrence of \<^verbatim>\<open>bc\<close> that no inserted word extends, and \<^verbatim>\<open>split\<close> returns
  \<^verbatim>\<open>ab\<close>, \<^verbatim>\<open>c\<close>: the occurrence is no fragment.
\<close>

theorem overlapped_occurrence_not_isolated:
  "tokens (Trie_init [''ab'', ''bc'']) = {''ab'', ''bc''} \<and>
   split (Trie_init [''ab'', ''bc'']) (''a'' @ ''bc'' @ []) = Inr [''ab'', ''c''] \<and>
   ''bc'' \<notin> set [''ab'', ''c'']"
proof -
  have "tokens (Trie_init [''ab'', ''bc'']) = {''ab'', ''bc''}"
    by (auto simp: Trie_init_def update_def add_def)
  moreover have "split (Trie_init [''ab'', ''bc'']) (''a'' @ ''bc'' @ []) = Inr [''ab'', ''c'']"
    by code_simp
  ultimately show ?thesis by simp
qed

lemma cuts_append: "even (length A) \<Longrightarrow> cuts (A @ B) = cuts A @ cuts B"
  by (induction A rule: cuts.induct) simp_all

lemma cuts_member:
  assumes "odd (length A)"
  shows "(st, e) \<in> set (cuts (tl (A @ st # e # tail)))"
proof -
  from assms obtain a A' where A: "A = a # A'" by (cases A) auto
  with assms have "even (length A')" by simp
  then have "cuts (A' @ st # e # tail) = cuts A' @ (st, e) # cuts tail"
    by (simp add: cuts_append)
  with A show ?thesis by simp
qed

lemma lookahead_start_le:
  "lookahead tx cur items (start, en, sk) = Inr (st, en', sk') \<Longrightarrow> st \<le> start"
proof (induction items arbitrary: start en sk)
  case Nil
  then show ?case by simp
next
  case (Cons item items)
  obtain ls lp where item: "item = (ls, lp)" by (cases item)
  show ?case
  proof (cases "ls > start")
    case True
    with Cons.prems item show ?thesis by simp
  next
    case False
    let ?idx = "if ls < start then cur + 1 else cur"
    let ?nc = "if ?idx < length tx then Some (tx ! ?idx) else None"
    let ?acc = "if terminal lp then (ls, Some ?idx, ?idx) else (start, Some ?idx, sk)"
    have "?nc = None \<or> ?idx < length tx" by simp
    from lookahead_while_ok [OF this, of ls lp ?acc]
    obtain r where r: "lookahead_while tx ls lp ?idx ?nc ?acc = Inr r"
      and d: "r = ?acc \<or> (\<exists>j. ?idx < j \<and> j \<le> length tx \<and> r = (ls, Some j, j))"
      by blast
    obtain s1 e1 k1 where r1: "r = (s1, e1, k1)" by (cases r)
    with d False have le: "s1 \<le> start" by (auto split: if_splits)
    from Cons.prems item False r r1
    have "lookahead tx cur items (s1, e1, k1) = Inr (st, en', sk')"
      by (simp add: Let_def)
    from Cons.IH [OF this] le show ?thesis by simp
  qed
qed

lemma lookahead_target:
  assumes "sorted_wrt (<) (map fst items)" "map_of items i0 = Some n" "i0 \<le> start"
    "idx = (if i0 < start then cur + 1 else cur)" "longest_match n (drop idx tx) u"
  shows "\<exists>st e. lookahead tx cur items (start, en, sk) = Inr (st, Some e, e) \<and>
           ((st = i0 \<and> e = idx + length u) \<or> (st < i0 \<and> cur < e))"
  using assms(1,2)
proof (induction items arbitrary: en)
  case Nil
  then show ?case by simp
next
  case (Cons item rest)
  obtain ls lp where item: "item = (ls, lp)" by (cases item)
  from Cons.prems(1) item have later: "\<forall>k\<in>fst ` set rest. ls < k"
    and srest: "sorted_wrt (<) (map fst rest)" by auto
  show ?case
  proof (cases "ls = i0")
    case True
    with Cons.prems(2) item have "lp = n" by simp
    with True item later
    have "lookahead tx cur (item # rest) (start, en, sk)
            = Inr (i0, Some (idx + length u), idx + length u)"
      using lookahead_first [OF _ assms(3,4,5), of rest en sk] by simp
    then show ?thesis by simp
  next
    case False
    with Cons.prems(2) item have mrest: "map_of rest i0 = Some n" by simp
    then have "i0 \<in> fst ` set rest" by (metis map_of_eq_None_iff option.distinct(1))
    with later have lt: "ls < i0" by auto
    with assms(3) have lt': "ls < start" by simp
    let ?idx = "cur + 1"
    let ?nc = "if ?idx < length tx then Some (tx ! ?idx) else None"
    let ?acc = "if terminal lp then (ls, Some ?idx, ?idx) else (start, Some ?idx, sk)"
    have "?nc = None \<or> ?idx < length tx" by simp
    from lookahead_while_ok [OF this, of ls lp ?acc]
    obtain r where r: "lookahead_while tx ls lp ?idx ?nc ?acc = Inr r"
      and d: "r = ?acc \<or> (\<exists>j. ?idx < j \<and> j \<le> length tx \<and> r = (ls, Some j, j))"
      by blast
    have unf: "lookahead tx cur (item # rest) (start, en, sk) = lookahead tx cur rest r"
      using lt' item r by (auto split: if_splits)
    show ?thesis
    proof (cases "r = (start, Some ?idx, sk)")
      case True
      from Cons.IH [OF srest mrest, of "Some ?idx"] unf True show ?thesis by simp
    next
      case False
      with d lt' obtain e where e: "r = (ls, Some e, e)" "cur < e"
        by (cases "terminal lp") auto
      have "lookahead tx cur rest r = Inr (ls, Some e, e)"
        unfolding e(1) using later by (rule lookahead_later)
      with unf e lt show ?thesis by simp
    qed
  qed
qed

lemma match_states_target_after:
  assumes "sorted_wrt (<) (map fst (states s))" "map_of (states s) i0 = Some n"
    "\<forall>k\<in>fst ` set items. i0 < k \<and> k \<in> fst ` set (states s)"
    "longest_match n (drop (cur + 1) tx) u" "i0 \<notin> set tr"
    "match_states tx cur ch items s tr = Inr (s', tr', reset)"
  shows "if reset
         then \<exists>st e. offsets s' = offsets s @ [st, e] \<and> skip s' = e \<and>
                ((st = i0 \<and> e = cur + 1 + length u) \<or> (st < i0 \<and> cur < e))
         else offsets s' = offsets s \<and> skip s' = skip s \<and> i0 \<notin> set tr' \<and>
              map_of (states s') i0 = Some n"
  using assms(1,2,3,5,6)
proof (induction items arbitrary: s tr)
  case Nil
  then show ?case by auto
next
  case (Cons item items)
  obtain j tp where item: "item = (j, tp)" by (cases item)
  with Cons.prems(3) have gt: "i0 < j" and key: "j \<in> fst ` set (states s)"
    and rest: "\<forall>k\<in>fst ` set items. i0 < k \<and> k \<in> fst ` set (states s)" by simp_all
  show ?case
  proof (cases "terminal tp")
    case True
    from lookahead_target [OF Cons.prems(1,2) _ _ assms(4), where start = j and en = "endv s" and sk = "skip s"] gt
    obtain st e where "lookahead tx cur (states s) (j, endv s, skip s) = Inr (st, Some e, e)"
      and "(st = i0 \<and> e = cur + 1 + length u) \<or> (st < i0 \<and> cur < e)"
      by auto
    with Cons.prems(5) True item show ?thesis by auto
  next
    case nt: False
    show ?thesis
    proof (cases "map_of (children tp) ch")
      case None
      with Cons.prems(5) nt item
      have run: "match_states tx cur ch items s (List.insert j tr) = Inr (s', tr', reset)"
        by simp
      have "i0 \<notin> set (List.insert j tr)" using gt Cons.prems(4) by simp
      from Cons.IH [OF Cons.prems(1,2) rest this run] show ?thesis .
    next
      case (Some tp')
      let ?s = "s\<lparr>states := AList.update j tp' (states s)\<rparr>"
      from Cons.prems(5) nt item Some
      have run: "match_states tx cur ch items ?s tr = Inr (s', tr', reset)" by simp
      have keys: "map fst (states ?s) = map fst (states s)"
        using key by (simp add: update_present_keys)
      then have kset: "fst ` set (states ?s) = fst ` set (states s)"
        by (metis list.set_map)
      have so: "sorted_wrt (<) (map fst (states ?s))" using Cons.prems(1) keys by simp
      have mo: "map_of (states ?s) i0 = Some n"
        using Cons.prems(2) gt by (simp add: AList.update_conv')
      have rest': "\<forall>k\<in>fst ` set items. i0 < k \<and> k \<in> fst ` set (states ?s)"
        using rest kset by simp
      from Cons.IH [OF so mo rest' Cons.prems(4) run] show ?thesis
        by (cases reset) simp_all
    qed
  qed
qed

lemma match_states_target:
  assumes "sorted_wrt (<) (map fst (states s))" "sorted_wrt (<) (map fst items)"
    "\<forall>(k, p)\<in>set items. map_of (states s) k = Some p" "map_of items i0 = Some n"
    "i0 \<notin> set tr" "match_states tx cur (tx ! cur) items s tr = Inr (s', tr', reset)"
    and lm: "longest_match n (drop cur tx) u" and cur: "cur < length tx"
  shows "if reset
         then \<exists>st e. offsets s' = offsets s @ [st, e] \<and> skip s' = e \<and>
                ((st = i0 \<and> e = cur + length u) \<or> (st < i0 \<and> cur \<le> e))
         else offsets s' = offsets s \<and> skip s' = skip s \<and> i0 \<notin> set tr' \<and>
              (\<exists>n' u'. map_of (states s') i0 = Some n' \<and>
                 longest_match n' (drop (cur + 1) tx) u' \<and> cur + 1 + length u' = cur + length u)"
  using assms(1-6)
proof (induction items arbitrary: s tr)
  case Nil
  then show ?case by simp
next
  case (Cons item items)
  obtain j tp where item: "item = (j, tp)" by (cases item)
  from Cons.prems(3) item have here: "map_of (states s) j = Some tp" by simp
  then have key: "j \<in> fst ` set (states s)"
    by (metis map_of_eq_None_iff option.distinct(1))
  from Cons.prems(2) item have later: "\<forall>k\<in>fst ` set items. j < k"
    and srest: "sorted_wrt (<) (map fst items)" by auto
  from Cons.prems(3) have crest: "\<forall>(k, p)\<in>set items. map_of (states s) k = Some p" by simp
  show ?case
  proof (cases "j = i0")
    case True
    with Cons.prems(4) item have tp: "tp = n" by simp
    from here True tp have mo: "map_of (states s) i0 = Some n" by simp
    show ?thesis
    proof (cases "terminal n")
      case tm: True
      from lookahead_target [OF Cons.prems(1) mo _ _ lm, where start = i0 and en = "endv s" and sk = "skip s"]
      obtain st e where "lookahead tx cur (states s) (i0, endv s, skip s) = Inr (st, Some e, e)"
        and "(st = i0 \<and> e = cur + length u) \<or> (st < i0 \<and> cur < e)"
        by auto
      with Cons.prems(6) tm item True tp show ?thesis by auto
    next
      case nt: False
      with lm have "u \<noteq> []" by (auto simp: longest_match_def)
      then obtain c u' where u: "u = c # u'" by (cases u) auto
      with lm obtain rest' n' where r: "drop cur tx = c # rest'"
        and ch: "map_of (children n) c = Some n'" and lm0: "longest_match n' rest' u'"
        by (auto elim: longest_match_Cons)
      from r cur have c: "tx ! cur = c" and rest': "rest' = drop (cur + 1) tx"
        by (simp_all add: Cons_nth_drop_Suc [symmetric])
      from lm0 rest' have lm': "longest_match n' (drop (cur + 1) tx) u'" by simp
      let ?s = "s\<lparr>states := AList.update i0 n' (states s)\<rparr>"
      from Cons.prems(6) nt item True tp ch c
      have run: "match_states tx cur (tx ! cur) items ?s tr = Inr (s', tr', reset)" by simp
      have keys: "map fst (states ?s) = map fst (states s)"
        using key True by (simp add: update_present_keys)
      then have kset: "fst ` set (states ?s) = fst ` set (states s)"
        by (metis list.set_map)
      have so: "sorted_wrt (<) (map fst (states ?s))" using Cons.prems(1) keys by simp
      have mo': "map_of (states ?s) i0 = Some n'" by (simp add: AList.update_conv')
      have rest2: "\<forall>k\<in>fst ` set items. i0 < k \<and> k \<in> fst ` set (states ?s)"
      proof
        fix k assume k: "k \<in> fst ` set items"
        then obtain p where "(k, p) \<in> set items" by auto
        with crest have "map_of (states s) k = Some p" by auto
        then have "k \<in> fst ` set (states s)"
          by (metis map_of_eq_None_iff option.distinct(1))
        moreover from later k True have "i0 < k" by auto
        ultimately show "i0 < k \<and> k \<in> fst ` set (states ?s)" using kset by simp
      qed
      from match_states_target_after [OF so mo' rest2 lm' Cons.prems(5) run] u lm'
      show ?thesis by (cases reset) auto
    qed
  next
    case False
    with Cons.prems(4) item have mrest: "map_of items i0 = Some n" by simp
    then have "i0 \<in> fst ` set items" by (metis map_of_eq_None_iff option.distinct(1))
    with later have lt: "j < i0" by auto
    show ?thesis
    proof (cases "terminal tp")
      case True
      from lookahead_ok [OF Cons.prems(1) cur here True, of "endv s" "skip s"]
      obtain st e where la: "lookahead tx cur (states s) (j, endv s, skip s) = Inr (st, Some e, e)"
        and e: "cur \<le> e" by blast
      from lookahead_start_le [OF la] lt have "st < i0" by simp
      with Cons.prems(6) True item la e show ?thesis by auto
    next
      case nt: False
      show ?thesis
      proof (cases "map_of (children tp) (tx ! cur)")
        case None
        with Cons.prems(6) nt item
        have run: "match_states tx cur (tx ! cur) items s (List.insert j tr) = Inr (s', tr', reset)"
          by simp
        have "i0 \<notin> set (List.insert j tr)" using lt Cons.prems(5) by simp
        from Cons.IH [OF Cons.prems(1) srest crest mrest this run] show ?thesis .
      next
        case (Some tp')
        let ?s = "s\<lparr>states := AList.update j tp' (states s)\<rparr>"
        from Cons.prems(6) nt item Some
        have run: "match_states tx cur (tx ! cur) items ?s tr = Inr (s', tr', reset)" by simp
        have keys: "map fst (states ?s) = map fst (states s)"
          using key by (simp add: update_present_keys)
        have so: "sorted_wrt (<) (map fst (states ?s))" using Cons.prems(1) keys by simp
        have crest': "\<forall>(k, p)\<in>set items. map_of (states ?s) k = Some p"
        proof (clarify)
          fix k p assume kp: "(k, p) \<in> set items"
          with later have "k \<noteq> j" by force
          moreover from kp crest have "map_of (states s) k = Some p" by auto
          ultimately show "map_of (states ?s) k = Some p" by (simp add: AList.update_conv')
        qed
        from Cons.IH [OF so srest crest' mrest Cons.prems(5) run] show ?thesis
          by (cases reset) simp_all
      qed
    qed
  qed
qed


lemma del_states_lookup:
  "del_states tr sts = Inr sts' \<Longrightarrow> i0 \<notin> set tr \<Longrightarrow> map_of sts' i0 = map_of sts i0"
proof (induction tr arbitrary: sts)
  case Nil
  then show ?case by simp
next
  case (Cons k ks)
  from Cons.prems(2) have ne: "i0 \<noteq> k" "i0 \<notin> set ks" by auto
  from Cons.prems(1) have "del_states ks (AList.delete k sts) = Inr sts'"
    by (simp split: if_splits)
  from Cons.IH [OF this ne(2)] ne(1) show ?case by simp
qed

lemma step_unfold:
  assumes "\<not> (skip s \<noteq> 0 \<and> cur < skip s)" "step root tx cur ch s = Inr s'"
  obtains s1 tr reset sts where "match_states tx cur ch (states s) s [] = Inr (s1, tr, reset)"
    "(if reset then Inr [] else del_states tr (states s1)) = Inr sts"
    "offsets s' = offsets s1" "skip s' = skip s1"
    "states s' = (case (if skip s1 \<le> cur then map_of (children root) ch else None) of
                    Some v \<Rightarrow> AList.update cur v sts | None \<Rightarrow> sts)"
proof -
  from assms(2) have "(case match_states tx cur ch (states s) s [] of
        Inl e \<Rightarrow> Inl e
      | Inr (s1, to_remove, reset) \<Rightarrow>
          (case (if reset then Inr [] else del_states to_remove (states s1)) of
             Inl e \<Rightarrow> Inl e
           | Inr sts \<Rightarrow>
               (case (if cur \<ge> skip s1 then map_of (children root) ch else None) of
                  Some n \<Rightarrow> Inr (s1\<lparr>states := AList.update cur n sts\<rparr>)
                | None \<Rightarrow> Inr (s1\<lparr>states := sts\<rparr>)))) = Inr s'"
    by (simp only: step_def if_not_P [OF assms(1)])
  then have E: "(case match_states tx cur ch (states s) s [] of
        Inl e \<Rightarrow> Inl e
      | Inr (s1, to_remove, reset) \<Rightarrow>
          (case (if reset then Inr [] else del_states to_remove (states s1)) of
             Inl e \<Rightarrow> Inl e
           | Inr sts \<Rightarrow>
               (case (if cur \<ge> skip s1 then map_of (children root) ch else None) of
                  Some n \<Rightarrow> Inr (s1\<lparr>states := AList.update cur n sts\<rparr>)
                | None \<Rightarrow> Inr (s1\<lparr>states := sts\<rparr>)))) = Inr s'" .
  obtain s1 tr reset where m: "match_states tx cur ch (states s) s [] = Inr (s1, tr, reset)"
  proof (cases "match_states tx cur ch (states s) s []")
    case (Inl e)
    with E show ?thesis by simp
  next
    case (Inr x)
    then show ?thesis by (cases x) (auto intro: that)
  qed
  obtain sts where d: "(if reset then Inr [] else del_states tr (states s1)) = Inr sts"
  proof (cases "if reset then Inr [] else del_states tr (states s1)")
    case (Inl e)
    with E m show ?thesis by simp
  next
    case (Inr x)
    then show ?thesis by (rule that)
  qed
  from E m d have "offsets s' = offsets s1" "skip s' = skip s1"
    "states s' = (case (if skip s1 \<le> cur then map_of (children root) ch else None) of
                    Some v \<Rightarrow> AList.update cur v sts | None \<Rightarrow> sts)"
    by (auto split: option.splits if_splits)
  with m d show thesis by (rule that)
qed

lemma step_cut:
  assumes "scan_inv tx cur s" "cur < length tx" "step root tx cur ch s = Inr s'"
  shows "(offsets s' = offsets s \<and> skip s' = skip s) \<or>
         (\<exists>st e. offsets s' = offsets s @ [st, e] \<and> skip s' = e \<and> st < cur \<and> cur \<le> e)"
proof (cases "skip s \<noteq> 0 \<and> cur < skip s")
  case True
  with assms(3) show ?thesis by (simp add: step_def)
next
  case False
  from False assms(3) obtain s1 tr reset sts
    where m: "match_states tx cur ch (states s) s [] = Inr (s1, tr, reset)"
      and o: "offsets s' = offsets s1" "skip s' = skip s1"
    by (rule step_unfold)
  from assms(1) have sk: "sorted_wrt (<) (map fst (states s))"
    and kb: "\<forall>k\<in>fst ` set (states s). skip s \<le> k \<and> k < cur"
    by (simp_all add: scan_inv_def)
  from sk have dk: "distinct (map fst (states s))" by (simp add: strict_sorted_iff)
  from match_states_ok [OF sk assms(2) dk strict_keys_lookup [OF sk], of "[]" ch] m
  have c: "if reset
      then (\<exists>st e. offsets s1 = offsets s @ [st, e] \<and> skip s1 = e \<and>
              st \<in> fst ` set (states s) \<and> cur \<le> e \<and> e \<le> length tx)
      else offsets s1 = offsets s \<and> skip s1 = skip s \<and>
           map fst (states s1) = map fst (states s) \<and>
           set tr \<subseteq> fst ` set (states s) \<and> distinct tr"
    by auto
  show ?thesis
  proof (cases reset)
    case True
    with c obtain st e where "offsets s1 = offsets s @ [st, e]" "skip s1 = e"
      "st \<in> fst ` set (states s)" "cur \<le> e" by auto
    with kb o show ?thesis by auto
  next
    case False
    with c o show ?thesis by simp
  qed
qed

lemma step_target:
  assumes "scan_inv tx cur s" "cur < length tx" "i0 < cur" "skip s \<le> i0"
    "map_of (states s) i0 = Some n" "longest_match n (drop cur tx) u"
    "step root tx cur (tx ! cur) s = Inr s'"
  shows "(\<exists>st e. offsets s' = offsets s @ [st, e] \<and>
            ((st = i0 \<and> e = cur + length u) \<or> (st < i0 \<and> cur \<le> e))) \<or>
         (offsets s' = offsets s \<and> skip s' = skip s \<and>
          (\<exists>n' u'. map_of (states s') i0 = Some n' \<and>
             longest_match n' (drop (cur + 1) tx) u' \<and> cur + 1 + length u' = cur + length u))"
proof -
  from assms(3,4) have ns: "\<not> (skip s \<noteq> 0 \<and> cur < skip s)" by simp
  from ns assms(7) obtain s1 tr reset sts
    where m: "match_states tx cur (tx ! cur) (states s) s [] = Inr (s1, tr, reset)"
      and d: "(if reset then Inr [] else del_states tr (states s1)) = Inr sts"
      and o: "offsets s' = offsets s1" "skip s' = skip s1"
      and st: "states s' = (case (if skip s1 \<le> cur then map_of (children root) (tx ! cur)
                                  else None) of
                    Some v \<Rightarrow> AList.update cur v sts | None \<Rightarrow> sts)"
    by (rule step_unfold)
  from assms(1) have sk: "sorted_wrt (<) (map fst (states s))" by (simp add: scan_inv_def)
  note t = match_states_target [OF sk sk strict_keys_lookup [OF sk] assms(5) _ m assms(6,2)]
  show ?thesis
  proof (cases reset)
    case True
    with t o show ?thesis by auto
  next
    case False
    with t obtain n' u' where o1: "offsets s1 = offsets s" "skip s1 = skip s"
      and tr: "i0 \<notin> set tr" and mo: "map_of (states s1) i0 = Some n'"
      and lm: "longest_match n' (drop (cur + 1) tx) u'"
      and len: "cur + 1 + length u' = cur + length u"
      by auto
    from False d have "del_states tr (states s1) = Inr sts" by simp
    from del_states_lookup [OF this tr] mo have "map_of sts i0 = Some n'" by simp
    with st assms(3) have "map_of (states s') i0 = Some n'"
      by (auto simp: AList.update_conv' split: option.splits if_splits)
    with o o1 lm len show ?thesis by auto
  qed
qed

lemma final_cut_first:
  assumes "sorted_wrt (<) (map fst sts)" "map_of sts i0 = Some n" "terminal n"
  shows "\<exists>j. final_cut L sts offs = offs @ [j, L] \<and> j \<le> i0"
  using assms(1,2)
proof (induction sts)
  case Nil
  then show ?case by simp
next
  case (Cons item sts)
  obtain j tp where item: "item = (j, tp)" by (cases item)
  show ?case
  proof (cases "j = i0")
    case True
    with Cons.prems(2) item assms(3) show ?thesis by simp
  next
    case False
    with Cons.prems(2) item have mo: "map_of sts i0 = Some n" by simp
    then have "i0 \<in> fst ` set sts" by (metis map_of_eq_None_iff option.distinct(1))
    with Cons.prems(1) item have lt: "j < i0" by auto
    from Cons.prems(1) have "sorted_wrt (<) (map fst sts)" by simp
    from Cons.IH [OF this mo] lt item show ?thesis by (cases "terminal tp") auto
  qed
qed

lemma scan_target:
  assumes "scan_inv tx cur s" "i0 < cur" "cur \<le> length tx" "skip s \<le> i0"
    "map_of (states s) i0 = Some n" "longest_match n rest u" "rest = drop cur tx"
    "scan_text root tx cur rest s = Inr s'"
  shows "\<exists>st e tail. final_cut (length tx) (states s') (offsets s') = offsets s @ [st, e] @ tail \<and>
           ((st = i0 \<and> e = cur + length u) \<or> (st < i0 \<and> i0 < e))"
  using assms
proof (induction rest arbitrary: cur s n u)
  case Nil
  from Nil.prems(6) have u: "u = []" and t: "terminal n"
    by (auto simp: longest_match_def)
  from Nil.prems(3,7) have cur: "cur = length tx" by simp
  from Nil.prems(1) have sk: "sorted_wrt (<) (map fst (states s))" by (simp add: scan_inv_def)
  from final_cut_first [OF sk Nil.prems(5) t, of "length tx" "offsets s"]
  obtain j where "final_cut (length tx) (states s) (offsets s) = offsets s @ [j, length tx]"
    "j \<le> i0" by blast
  with Nil.prems(2,8) u cur show ?case by (cases "j = i0") auto
next
  case (Cons ch rest)
  from Cons.prems(7) have lt: "cur < length tx" by (cases "cur < length tx") simp_all
  with Cons.prems(7) have ch: "ch = tx ! cur" and rest: "rest = drop (cur + 1) tx"
    by (simp_all add: Cons_nth_drop_Suc [symmetric])
  from Cons.prems(8) obtain s1 where s1: "step root tx cur ch s = Inr s1"
    and run: "scan_text root tx (cur + 1) rest s1 = Inr s'"
    by (auto split: sum.splits)
  from step_ok [OF Cons.prems(1) lt, of root ch] s1 have inv1: "scan_inv tx (cur + 1) s1" by simp
  from Cons.prems(6,7) have lm: "longest_match n (drop cur tx) u" by simp
  from scan_text_appends [OF run] obtain m1 where m1: "offsets s' = offsets s1 @ m1" ..
  from final_cut_appends [of "length tx" "states s'" "offsets s'"]
  obtain m2 where m2: "final_cut (length tx) (states s') (offsets s') = offsets s' @ m2" ..
  from step_target [OF Cons.prems(1) lt Cons.prems(2,4,5) lm s1 [unfolded ch]]
  show ?case
  proof
    assume "\<exists>st e. offsets s1 = offsets s @ [st, e] \<and>
            ((st = i0 \<and> e = cur + length u) \<or> (st < i0 \<and> cur \<le> e))"
    then obtain st e where "offsets s1 = offsets s @ [st, e]"
      "(st = i0 \<and> e = cur + length u) \<or> (st < i0 \<and> i0 < e)"
      using Cons.prems(2) by auto
    with m1 m2 show ?thesis by auto
  next
    assume "offsets s1 = offsets s \<and> skip s1 = skip s \<and>
          (\<exists>n' u'. map_of (states s1) i0 = Some n' \<and>
             longest_match n' (drop (cur + 1) tx) u' \<and> cur + 1 + length u' = cur + length u)"
    then obtain n' u' where o: "offsets s1 = offsets s" and sk: "skip s1 = skip s"
      and mo: "map_of (states s1) i0 = Some n'"
      and lm': "longest_match n' (drop (cur + 1) tx) u'"
      and len: "cur + 1 + length u' = cur + length u"
      by auto
    have "\<exists>st e tail. final_cut (length tx) (states s') (offsets s') = offsets s1 @ [st, e] @ tail \<and>
           ((st = i0 \<and> e = (cur + 1) + length u') \<or> (st < i0 \<and> i0 < e))"
    proof (rule Cons.IH [OF inv1 _ _ _ mo _ rest run])
      show "i0 < cur + 1" using Cons.prems(2) by simp
      show "cur + 1 \<le> length tx" using lt by simp
      show "skip s1 \<le> i0" using sk Cons.prems(4) by simp
      show "longest_match n' rest u'" using lm' rest by simp
    qed
    then obtain st e tail
      where f: "final_cut (length tx) (states s') (offsets s') = offsets s1 @ [st, e] @ tail"
        and c: "(st = i0 \<and> e = (cur + 1) + length u') \<or> (st < i0 \<and> i0 < e)"
      by blast
    from c len have "(st = i0 \<and> e = cur + length u) \<or> (st < i0 \<and> i0 < e)" by auto
    with f o show ?thesis by auto
  qed
qed


lemma step_cut_inv:
  assumes "scan_inv tx cur s" "cur < length tx" "cut_inv cur s" "step root tx cur ch s = Inr s'"
  shows "cut_inv (cur + 1) s'"
  using step_cut [OF assms(1,2,4)]
proof
  assume "offsets s' = offsets s \<and> skip s' = skip s"
  with assms(3) show ?thesis by (auto simp: cut_inv_def)
next
  assume "\<exists>st e. offsets s' = offsets s @ [st, e] \<and> skip s' = e \<and> st < cur \<and> cur \<le> e"
  then obtain st e where "offsets s' = offsets s @ [st, e]" "skip s' = e" "st < cur" by blast
  with assms(3) show ?thesis by (auto simp: cut_inv_def)
qed

lemma scan_prefix:
  "scan_inv tx cur s \<Longrightarrow> cut_inv cur s \<Longrightarrow> cur + length xs \<le> length tx \<Longrightarrow>
   \<exists>s'. scan_text root tx cur xs s = Inr s' \<and> scan_inv tx (cur + length xs) s' \<and>
        cut_inv (cur + length xs) s'"
proof (induction xs arbitrary: cur s)
  case Nil
  then show ?case by simp
next
  case (Cons ch xs)
  from Cons.prems(3) have lt: "cur < length tx" by simp
  from step_ok [OF Cons.prems(1) lt, of root ch]
  obtain s1 where s1: "step root tx cur ch s = Inr s1" "scan_inv tx (cur + 1) s1" by blast
  from step_cut_inv [OF Cons.prems(1) lt Cons.prems(2) s1(1)] have c1: "cut_inv (cur + 1) s1" .
  from Cons.IH [OF s1(2) c1] Cons.prems(3)
  obtain s' where "scan_text root tx (cur + 1) xs s1 = Inr s'"
    "scan_inv tx (cur + 1 + length xs) s'" "cut_inv (cur + 1 + length xs) s'"
    by auto
  with s1(1) show ?case by simp
qed

lemma scan_text_append:
  "scan_text root tx cur xs s = Inr s1 \<Longrightarrow>
   scan_text root tx cur (xs @ ys) s = scan_text root tx (cur + length xs) ys s1"
proof (induction xs arbitrary: cur s)
  case Nil
  then show ?case by simp
next
  case (Cons ch xs)
  from Cons.prems obtain s2 where s2: "step root tx cur ch s = Inr s2"
    "scan_text root tx (cur + 1) xs s2 = Inr s1"
    by (auto split: sum.splits)
  from Cons.IH [OF s2(2)] s2(1) show ?case by simp
qed

lemma step_new_state:
  assumes "\<not> (skip s \<noteq> 0 \<and> cur < skip s)" "step root tx cur ch s = Inr s'"
    "skip s' \<le> cur" "map_of (children root) ch = Some v"
  shows "map_of (states s') cur = Some v"
proof -
  from assms(1,2) obtain s1 tr reset sts
    where "match_states tx cur ch (states s) s [] = Inr (s1, tr, reset)"
      and "(if reset then Inr [] else del_states tr (states s1)) = Inr sts"
      and "offsets s' = offsets s1" and sk: "skip s' = skip s1"
      and st: "states s' = (case (if skip s1 \<le> cur then map_of (children root) ch else None) of
                    Some v \<Rightarrow> AList.update cur v sts | None \<Rightarrow> sts)"
    by (rule step_unfold)
  from sk st assms(3,4) show ?thesis by (simp add: AList.update_conv')
qed

lemma cut_loop_run:
  "sorted (st # A) \<Longrightarrow> concat toks = take st tx \<Longrightarrow>
   \<exists>ts. cut_loop tx (A @ B) st toks = cut_loop tx B (last (st # A)) ts \<and>
        concat ts = take (last (st # A)) tx"
proof (induction A arbitrary: st toks)
  case Nil
  then show ?case by (intro exI [of _ toks]) simp
next
  case (Cons a A)
  from Cons.prems(1) have le: "st \<le> a" and so: "sorted (a # A)" by simp_all
  show ?case
  proof (cases "st = a")
    case True
    from Cons.IH [OF so, of toks] Cons.prems(2) True show ?thesis by simp
  next
    case False
    with le have lt: "st < a" by simp
    have "take a tx = take st tx @ take (a - st) (drop st tx)"
      using lt take_add [of st "a - st" tx] by simp
    with Cons.prems(2) have "concat (toks @ [take (a - st) (drop st tx)]) = take a tx"
      by simp
    from Cons.IH [OF so this] lt show ?thesis by simp
  qed
qed

lemma root_not_terminal: "reachable T \<Longrightarrow> \<not> terminal (data T)"
proof (induction rule: reachable.induct)
  case (init ws)
  have "\<not> terminal (data (fold add ws T0))" if "\<not> terminal (data T0)" for T0 :: "'a Trie"
    using that
  proof (induction ws arbitrary: T0)
    case Nil
    then show ?case by simp
  next
    case (Cons x xs)
    have "\<not> terminal (data (add x T0))"
      using Cons.prems by (cases x; cases "data T0") (simp_all add: add_def)
    from Cons.IH [OF this] show ?case by simp
  qed
  then show ?case by (simp add: Trie_init_def update_def)
next
  case (add T x)
  then show ?case by (cases x; cases "data T") (simp_all add: add_def)
qed

text \<open>
  Claim C6, amended. Let the text be \<open>pre @ w @ post\<close> with \<open>w\<close> an inserted word, such that
  no longer inserted word that starts with \<open>w\<close> is a prefix of \<open>w @ post\<close>. Unless the scan
  accepts a match that starts before this occurrence and ends after its start (a match
  begun earlier takes precedence and discards every other partial match), the occurrence
  is accepted as a match and \<^verbatim>\<open>split\<close> returns it as a fragment of its own: the fragments
  before it concatenate to \<open>pre\<close>.
\<close>

theorem isolated_occurrence:
  assumes "reachable T" "w \<in> tokens T"
    and "\<forall>v\<in>tokens T. prefix w v \<and> prefix v (w @ post) \<longrightarrow> v = w"
    and "\<forall>(s, e)\<in>set (matches T (pre @ w @ post)). \<not> (s < length pre \<and> length pre < e)"
  shows "(length pre, length pre + length w) \<in> set (matches T (pre @ w @ post)) \<and>
         (\<exists>before after. split T (pre @ w @ post) = Inr (before @ w # after) \<and>
            concat before = pre)"
proof -
  let ?tx = "pre @ w @ post"
  let ?i0 = "length pre"
  let ?L = "length ?tx"
  let ?s0 = "\<lparr>states = [], offsets = [0], skip = 0, endv = None\<rparr> :: 'a scan"
  note agree = agree_reachable [OF assms(1), rule_format]
  from assms(2) agree have ew: "ends_terminal (data T) w" by simp
  with root_not_terminal [OF assms(1)] have "w \<noteq> []" by auto
  then obtain c w' where w: "w = c # w'" by (cases w) auto
  from ew w obtain n1 where n1: "map_of (children (data T)) c = Some n1"
    by (auto split: option.splits)
  have lm: "longest_match n1 (w' @ post) w'"
  proof (rule longest_from_vocab [OF ew [unfolded w] _ n1])
    fix v assume "ends_terminal (data T) v" "prefix (c # w') v" "prefix v ((c # w') @ post)"
    with agree assms(3) w show "v = c # w'" by auto
  qed
  have i0: "?i0 < ?L" using w by simp
  have inv0: "scan_inv ?tx 0 ?s0" "cut_inv 0 ?s0" by (simp_all add: scan_inv_def cut_inv_def)
  from scan_prefix [OF inv0, of pre "data T"]
  obtain sp where sp: "scan_text (data T) ?tx 0 pre ?s0 = Inr sp"
    and invp: "scan_inv ?tx ?i0 sp" and cutp: "cut_inv ?i0 sp" by auto
  from step_ok [OF invp i0, of "data T" c]
  obtain s1 where s1: "step (data T) ?tx ?i0 c sp = Inr s1" and inv1: "scan_inv ?tx (?i0 + 1) s1"
    by blast
  from step_cut_inv [OF invp i0 cutp s1] have cut1: "cut_inv (?i0 + 1) s1" .
  from scan_text_ok [OF inv1, of "w' @ post" "data T"] w
  obtain sf where sf: "scan_text (data T) ?tx (?i0 + 1) (w' @ post) s1 = Inr sf"
    and invf: "scan_inv ?tx ?L sf" by auto
  have whole: "scan_text (data T) ?tx 0 ?tx ?s0 = Inr sf"
    using scan_text_append [OF sp, of "w @ post"] s1 sf w by simp
  let ?F = "final_cut ?L (states sf) (offsets sf)"
  from whole have so: "split_offsets T ?tx = Inr ?F" by (simp add: split_offsets_def)
  then have ma: "matches T ?tx = cuts (tl ?F)" by (simp add: matches_def)
  from whole have sp_eq: "split T ?tx = cut_text ?tx ?F" by (simp add: split_def)
  from scan_text_appends [OF sf] obtain m1 where m1: "offsets sf = offsets s1 @ m1" ..
  from final_cut_appends [of ?L "states sf" "offsets sf"]
  obtain m2 where m2: "?F = offsets sf @ m2" ..
  from cut1 have odd1: "odd (length (offsets s1))" by (simp add: cut_inv_def)
  have skip1: "skip s1 \<le> ?i0"
  proof (rule ccontr)
    assume "\<not> skip s1 \<le> ?i0"
    then have gt: "?i0 < skip s1" by simp
    with cut1 obtain offs1 st where o: "offsets s1 = offs1 @ [st, skip s1]" and st: "st < ?i0"
      by (auto simp: cut_inv_def)
    from o odd1 have "odd (length offs1)" by simp
    from cuts_member [OF this, of st "skip s1" "m1 @ m2"] o m1 m2 ma
    have "(st, skip s1) \<in> set (matches T ?tx)" by simp
    with assms(4) st gt show False by auto
  qed
  have nskip: "\<not> (skip sp \<noteq> 0 \<and> ?i0 < skip sp)"
  proof
    assume a: "skip sp \<noteq> 0 \<and> ?i0 < skip sp"
    with s1 have "s1 = sp" by (simp add: step_def)
    with a skip1 show False by simp
  qed
  from step_new_state [OF nskip s1 skip1 n1] have mo: "map_of (states s1) ?i0 = Some n1" .
  have "\<exists>st e tail. ?F = offsets s1 @ [st, e] @ tail \<and>
           ((st = ?i0 \<and> e = (?i0 + 1) + length w') \<or> (st < ?i0 \<and> ?i0 < e))"
  proof (rule scan_target [OF inv1 _ _ skip1 mo lm _ sf])
    show "?i0 < ?i0 + 1" by simp
    show "?i0 + 1 \<le> ?L" using w by simp
    show "w' @ post = drop (?i0 + 1) ?tx" using w by simp
  qed
  then obtain st e tail where F: "?F = offsets s1 @ [st, e] @ tail"
    and c: "(st = ?i0 \<and> e = ?i0 + length w) \<or> (st < ?i0 \<and> ?i0 < e)"
    using w by auto
  from cuts_member [OF odd1, of st e tail] F ma have mem: "(st, e) \<in> set (matches T ?tx)"
    by simp
  with assms(4) c have st: "st = ?i0" and e: "e = ?i0 + length w" by auto
  have sorted_F: "sorted (?F @ [?L])"
    using invf unfolding scan_inv_def by (intro final_cut_sorted [where sk = "skip sf"]) simp_all
  let ?A = "offsets s1 @ [?i0]"
  have "sorted (0 # ?A)"
    using sorted_F unfolding F st e by (simp add: sorted_append)
  from cut_loop_run [OF this, of "[]" ?tx "(?i0 + length w) # tail @ [?L]"]
  obtain ts where run: "cut_loop ?tx (?A @ (?i0 + length w) # tail @ [?L]) 0 []
        = cut_loop ?tx ((?i0 + length w) # tail @ [?L]) ?i0 ts"
    and ts: "concat ts = take ?i0 ?tx"
    by auto
  have "cut_text ?tx ?F = cut_loop ?tx (?A @ (?i0 + length w) # tail @ [?L]) 0 []"
    unfolding F st e by (simp add: cut_text_def)
  also have "\<dots> = cut_loop ?tx (tail @ [?L]) (?i0 + length w) (ts @ [w])"
    using run \<open>w \<noteq> []\<close> by simp
  finally have cl: "split T ?tx = cut_loop ?tx (tail @ [?L]) (?i0 + length w) (ts @ [w])"
    using sp_eq by simp
  from split_total [of T ?tx] obtain frags where frags: "split T ?tx = Inr frags" by blast
  with cl have "cut_loop ?tx (tail @ [?L]) (?i0 + length w) (ts @ [w]) = Inr frags" by simp
  from cut_loop_appends [OF this] obtain r' where "frags = (ts @ [w]) @ r'" ..
  with frags ts have "split T ?tx = Inr (ts @ w # r') \<and> concat ts = pre" by simp
  with mem st e show ?thesis by blast
qed

theorem isolated_occurrence_witness:
  "\<exists>before after.
     split (Trie_init [''[CLS]'', ''extra_id_1'', ''extra_id_100''])
       (''[CLS] This is a '' @ ''extra_id_100'' @ [])
       = Inr (before @ ''extra_id_100'' # after) \<and>
     concat before = ''[CLS] This is a ''"
proof -
  let ?T = "Trie_init [''[CLS]'', ''extra_id_1'', ''extra_id_100'']"
  have r: "reachable ?T" by (rule reachable.init)
  have t: "tokens ?T = {''[CLS]'', ''extra_id_1'', ''extra_id_100''}"
    by (auto simp: Trie_init_def update_def add_def)
  have m: "''extra_id_100'' \<in> tokens ?T" unfolding t by simp
  have h1: "\<forall>v\<in>tokens ?T. prefix ''extra_id_100'' v \<and> prefix v (''extra_id_100'' @ [])
              \<longrightarrow> v = ''extra_id_100''"
    unfolding t by simp
  have ms: "matches ?T (''[CLS] This is a '' @ ''extra_id_100'' @ []) = [(0, 5), (16, 28)]"
    by code_simp
  have h2: "\<forall>(s, e)\<in>set (matches ?T (''[CLS] This is a '' @ ''extra_id_100'' @ [])).
              \<not> (s < length ''[CLS] This is a '' \<and> length ''[CLS] This is a '' < e)"
    unfolding ms by simp
  from isolated_occurrence [OF r m h1 h2] show ?thesis by blast
qed

text \<open>
  Where an earlier partial match fails on the very character at which a later one is
  complete, the lookahead still visits the failed state, whose pointer was not advanced,
  and resumes it one character further on. With \<^verbatim>\<open>abcd\<close> and \<^verbatim>\<open>b\<close> inserted, the text
  \<^verbatim>\<open>abXcd\<close> gets the single cut (0, 5), which is no inserted word, and the occurrence of
  \<^verbatim>\<open>b\<close> is no fragment. This cut starts before the occurrence and ends after its start, so
  the statement above says nothing about it.
\<close>

lemma stale_lookahead_example:
  "split (Trie_init [''abcd'', ''b'']) ''abXcd'' = Inr [''abXcd''] \<and>
   matches (Trie_init [''abcd'', ''b'']) ''abXcd'' = [(0, 5)]"
proof -
  have "split (Trie_init [''abcd'', ''b'']) ''abXcd'' = Inr [''abXcd'']" by code_simp
  moreover have "matches (Trie_init [''abcd'', ''b'']) ''abXcd'' = [(0, 5)]" by code_simp
  ultimately show ?thesis by simp
qed

end
